theory Spec2Isabelle
  imports Main "HOL-Library.AList"
begin

section \<open>Data model (server.js, lines 13-28)\<close>

text \<open>
  User identities are the strings the clients send (the test client uses \<open>'alice'\<close> and
  \<open>'bob'\<close>); the handlers reject a falsy \<open>userId\<close>, which for a string is the empty one.
  Seat ids are the integer keys of the \<open>seats\<close> map. Times are the millisecond readings
  of \<open>Date.now()\<close>.
\<close>

type_synonym userId = string
type_synonym millis = int

datatype seat_status = available | locked | booked

text \<open>
  One seat object. \<open>lockOwner\<close>, \<open>lockExpiresAt\<close> and \<open>timeoutId\<close> are \<open>null\<close> (\<open>None\<close>)
  or hold a value. \<open>timeoutId\<close> is the handle returned by \<open>setTimeout\<close>.
\<close>

record seat =
  seat_id :: int
  status :: seat_status
  lockOwner :: "userId option"
  lockExpiresAt :: "millis option"
  timeoutId :: "nat option"

text \<open>
  A timeout registered with the runtime and not yet fired or cleared: the callback
  created in \<open>scheduleAutoRelease\<close> closes over one seat object (named here by its key in
  the \<open>seats\<close> map, since seat objects are never replaced) and was given a delay.
\<close>

record timeout =
  callbackSeat :: int
  delay :: millis

text \<open>
  The process state: the \<open>seats\<close> map in insertion order, the runtime's table of
  pending timeouts by handle, and the next unused handle.
\<close>

record server =
  seats :: "(int \<times> seat) list"
  pending :: "nat \<rightharpoonup> timeout"
  nextTimeoutId :: nat

definition LOCK_DURATION_MS :: millis where
  "LOCK_DURATION_MS = 60 * 1000"

definition CLEANUP_INTERVAL_MS :: millis where
  "CLEANUP_INTERVAL_MS = 5 * 1000"

definition initialSeat :: "int \<Rightarrow> seat" where
  "initialSeat i =
     \<lparr>seat_id = i, status = available, lockOwner = None, lockExpiresAt = None,
      timeoutId = None\<rparr>"

definition initialServer :: server where
  "initialServer =
     \<lparr>seats = map (\<lambda>i. (i, initialSeat i)) [1..20], pending = Map.empty,
      nextTimeoutId = 1\<rparr>"

text \<open>\<open>seats.get(k)\<close>, and the in-place mutation of the seat object stored under \<open>k\<close>.\<close>

definition getSeat :: "server \<Rightarrow> int \<Rightarrow> seat option" where
  "getSeat srv k = map_of (seats srv) k"

definition setSeat :: "int \<Rightarrow> seat \<Rightarrow> server \<Rightarrow> server" where
  "setSeat k s srv = srv\<lparr>seats := AList.update k s (seats srv)\<rparr>"

section \<open>Timers of the runtime\<close>

definition clearTimeout :: "nat \<Rightarrow> server \<Rightarrow> server" where
  "clearTimeout h srv = srv\<lparr>pending := (pending srv)(h := None)\<rparr>"

definition setTimeout :: "int \<Rightarrow> millis \<Rightarrow> server \<Rightarrow> nat \<times> server" where
  "setTimeout k ms srv =
     (nextTimeoutId srv,
      srv\<lparr>pending := (pending srv)(nextTimeoutId srv \<mapsto> \<lparr>callbackSeat = k, delay = ms\<rparr>),
          nextTimeoutId := Suc (nextTimeoutId srv)\<rparr>)"

section \<open>Helpers (server.js, lines 30-64)\<close>

text \<open>\<open>releaseLock(seat)\<close>, lines 31-40; the seat object is the one stored under \<open>k\<close>.\<close>

definition releaseLock :: "int \<Rightarrow> server \<Rightarrow> server" where
  "releaseLock k srv =
     (case getSeat srv k of
        None \<Rightarrow> srv
      | Some seat \<Rightarrow>
          let srv1 = (case timeoutId seat of
                        Some h \<Rightarrow> clearTimeout h srv
                      | None \<Rightarrow> srv)
          in setSeat k
               (seat\<lparr>timeoutId := None, status := available, lockOwner := None,
                     lockExpiresAt := None\<rparr>) srv1)"

text \<open>
  \<open>scheduleAutoRelease(seat)\<close>, lines 43-53, with \<open>now\<close> the reading of \<open>Date.now()\<close> in
  line 45. A \<open>null\<close> expiry counts as 0 in the subtraction, as in JavaScript.
\<close>

definition scheduleAutoRelease :: "int \<Rightarrow> millis \<Rightarrow> server \<Rightarrow> server" where
  "scheduleAutoRelease k now srv =
     (case getSeat srv k of
        None \<Rightarrow> srv
      | Some seat \<Rightarrow>
          let srv1 = (case timeoutId seat of
                        Some h \<Rightarrow> clearTimeout h srv
                      | None \<Rightarrow> srv);
              ms = max 0 ((case lockExpiresAt seat of None \<Rightarrow> 0 | Some e \<Rightarrow> e) - now);
              (h, srv2) = setTimeout k (ms + 5) srv1
          in setSeat k (seat\<lparr>timeoutId := Some h\<rparr>) srv2)"

text \<open>
  The callback of lines 46-52, run at time \<open>now\<close> for the seat it closes over. The test
  \<open>seat.lockExpiresAt && Date.now() >= seat.lockExpiresAt\<close> is false for \<open>null\<close> and for 0.
\<close>

definition autoReleaseCallback :: "int \<Rightarrow> millis \<Rightarrow> server \<Rightarrow> server" where
  "autoReleaseCallback k now srv =
     (case getSeat srv k of
        None \<Rightarrow> srv
      | Some seat \<Rightarrow>
          if status seat = locked \<and>
             (case lockExpiresAt seat of None \<Rightarrow> False | Some e \<Rightarrow> e \<noteq> 0 \<and> now \<ge> e)
          then releaseLock k srv
          else srv)"

text \<open>
  The runtime fires the pending timeout \<open>h\<close> at time \<open>now\<close>: the timeout leaves the table
  and its callback runs. A handle that is not pending (cleared, or fired before) runs
  nothing.
\<close>

definition timerFires :: "nat \<Rightarrow> millis \<Rightarrow> server \<Rightarrow> server" where
  "timerFires h now srv =
     (case pending srv h of
        None \<Rightarrow> srv
      | Some t \<Rightarrow> autoReleaseCallback (callbackSeat t) now (clearTimeout h srv))"

text \<open>The periodic cleanup of lines 56-64: one reading of the clock, then every seat.\<close>

definition cleanupSeat :: "millis \<Rightarrow> int \<Rightarrow> server \<Rightarrow> server" where
  "cleanupSeat now k srv =
     (case getSeat srv k of
        None \<Rightarrow> srv
      | Some seat \<Rightarrow>
          if status seat = locked \<and>
             (case lockExpiresAt seat of None \<Rightarrow> False | Some e \<Rightarrow> e \<noteq> 0 \<and> now \<ge> e)
          then releaseLock k srv
          else srv)"

definition cleanup :: "millis \<Rightarrow> server \<Rightarrow> server" where
  "cleanup now srv = fold (cleanupSeat now) (map fst (seats srv)) srv"

section \<open>Request handlers (server.js, lines 77-173)\<close>

text \<open>
  The failure responses, one constructor per message of the source, and their HTTP
  status. \<open>LockConflict\<close> and \<open>NotLockOwner\<close> carry the \<open>seat.lockOwner\<close> printed in the
  message; the 403 of \<open>/release\<close> prints no owner.
\<close>

datatype failure =
    BadRequest
  | NotFound
  | AlreadyBooked
  | LockConflict "userId option"
  | NotLocked
  | NotLockOwner "userId option"
  | ReleaseNotLockOwner
  | LockExpired

fun httpStatus :: "failure \<Rightarrow> nat" where
  "httpStatus BadRequest = 400"
| "httpStatus NotFound = 404"
| "httpStatus AlreadyBooked = 409"
| "httpStatus (LockConflict _) = 409"
| "httpStatus NotLocked = 409"
| "httpStatus (NotLockOwner _) = 403"
| "httpStatus ReleaseNotLockOwner = 403"
| "httpStatus LockExpired = 409"

text \<open>The success responses with the seat fields they report.\<close>

datatype success =
    LockRefreshed int seat_status "millis option"
  | LockAcquired int seat_status "millis option"
  | BookingConfirmed int seat_status userId
  | LockReleased

type_synonym response = "failure + success"

text \<open>
  Lines 109-115 of \<open>/lock\<close>, reached for an available seat and after the release of an
  expired lock: \<open>now2\<close> is the reading of line 112, \<open>now3\<close> the one inside
  \<open>scheduleAutoRelease\<close>.
\<close>

definition lockAvailable :: "int \<Rightarrow> userId \<Rightarrow> millis \<Rightarrow> millis \<Rightarrow> server \<Rightarrow> response \<times> server" where
  "lockAvailable seatId userId now2 now3 srv =
     (case getSeat srv seatId of
        None \<Rightarrow> (Inl NotFound, srv)
      | Some seat \<Rightarrow>
          let seat1 = seat\<lparr>status := locked, lockOwner := Some userId,
                           lockExpiresAt := Some (now2 + LOCK_DURATION_MS)\<rparr>;
              srv1 = scheduleAutoRelease seatId now3 (setSeat seatId seat1 srv)
          in (Inr (LockAcquired (seat_id seat1) (status seat1) (lockExpiresAt seat1)), srv1))"

text \<open>
  \<open>POST /lock\<close>, lines 78-116. \<open>now1\<close> is the reading of line 95, \<open>now2\<close> the one of line
  101 or 112, \<open>now3\<close> the one inside \<open>scheduleAutoRelease\<close>.
\<close>

definition lock :: "int \<Rightarrow> userId \<Rightarrow> millis \<Rightarrow> millis \<Rightarrow> millis \<Rightarrow> server \<Rightarrow> response \<times> server" where
  "lock seatId userId now1 now2 now3 srv =
     (if userId = [] then (Inl BadRequest, srv)
      else case getSeat srv seatId of
        None \<Rightarrow> (Inl NotFound, srv)
      | Some seat \<Rightarrow>
          if status seat = booked then (Inl AlreadyBooked, srv)
          else if status seat = locked then
            (if (case lockExpiresAt seat of None \<Rightarrow> False | Some e \<Rightarrow> e \<noteq> 0 \<and> now1 \<ge> e)
             then lockAvailable seatId userId now2 now3 (releaseLock seatId srv)
             else if lockOwner seat = Some userId then
               (let seat1 = seat\<lparr>lockExpiresAt := Some (now2 + LOCK_DURATION_MS)\<rparr>;
                    srv1 = scheduleAutoRelease seatId now3 (setSeat seatId seat1 srv)
                in (Inr (LockRefreshed (seat_id seat1) (status seat1) (lockExpiresAt seat1)),
                    srv1))
             else (Inl (LockConflict (lockOwner seat)), srv))
          else lockAvailable seatId userId now2 now3 srv)"

text \<open>\<open>POST /confirm\<close>, lines 119-157, with \<open>now\<close> the reading of line 141.\<close>

definition confirm :: "int \<Rightarrow> userId \<Rightarrow> millis \<Rightarrow> server \<Rightarrow> response \<times> server" where
  "confirm seatId userId now srv =
     (if userId = [] then (Inl BadRequest, srv)
      else case getSeat srv seatId of
        None \<Rightarrow> (Inl NotFound, srv)
      | Some seat \<Rightarrow>
          if status seat = booked then (Inl AlreadyBooked, srv)
          else if status seat \<noteq> locked then (Inl NotLocked, srv)
          else if lockOwner seat \<noteq> Some userId then (Inl (NotLockOwner (lockOwner seat)), srv)
          else if (case lockExpiresAt seat of None \<Rightarrow> False | Some e \<Rightarrow> e \<noteq> 0 \<and> now \<ge> e)
          then (Inl LockExpired, releaseLock seatId srv)
          else
            let srv1 = (case timeoutId seat of
                          Some h \<Rightarrow> clearTimeout h srv
                        | None \<Rightarrow> srv);
                seat1 = seat\<lparr>timeoutId := None, status := booked, lockOwner := Some userId,
                             lockExpiresAt := None\<rparr>
            in (Inr (BookingConfirmed (seat_id seat1) (status seat1) userId),
                setSeat seatId seat1 srv1))"

text \<open>\<open>POST /release\<close>, lines 160-173.\<close>

definition release :: "int \<Rightarrow> userId \<Rightarrow> server \<Rightarrow> response \<times> server" where
  "release seatId userId srv =
     (if userId = [] then (Inl BadRequest, srv)
      else case getSeat srv seatId of
        None \<Rightarrow> (Inl NotFound, srv)
      | Some seat \<Rightarrow>
          if status seat \<noteq> locked then (Inl NotLocked, srv)
          else if lockOwner seat \<noteq> Some userId then (Inl ReleaseNotLockOwner, srv)
          else (Inr LockReleased, releaseLock seatId srv))"

section \<open>Runs of the server\<close>

text \<open>
  Everything that can change the state after start-up: the three mutating requests, a
  pending timeout firing, and a tick of the cleanup interval. Each carries the clock
  readings it makes. The handlers run to completion, one at a time.
\<close>

datatype event =
    LockReq int userId millis millis millis
  | ConfirmReq int userId millis
  | ReleaseReq int userId
  | TimerFires nat millis
  | CleanupTick millis

fun step :: "event \<Rightarrow> server \<Rightarrow> server" where
  "step (LockReq k u now1 now2 now3) srv = snd (lock k u now1 now2 now3 srv)"
| "step (ConfirmReq k u now) srv = snd (confirm k u now srv)"
| "step (ReleaseReq k u) srv = snd (release k u srv)"
| "step (TimerFires h now) srv = timerFires h now srv"
| "step (CleanupTick now) srv = cleanup now srv"

definition run :: "event list \<Rightarrow> server \<Rightarrow> server" where
  "run evs srv = fold step evs srv"

section \<open>Notions used to state the properties\<close>

text \<open>
  Every pending timeout is the one its seat holds in \<open>timeoutId\<close>, and its handle has
  been handed out. So a seat has at most one pending timeout, and clearing the handle a
  seat holds cancels whatever is scheduled for it.
\<close>

definition timersOk :: "server \<Rightarrow> bool" where
  "timersOk srv \<longleftrightarrow>
     (\<forall>h t. pending srv h = Some t \<longrightarrow>
        h < nextTimeoutId srv \<and>
        (\<exists>s. getSeat srv (callbackSeat t) = Some s \<and> timeoutId s = Some h))"

text \<open>No timeout is scheduled for the seat stored under \<open>k\<close>.\<close>

definition noPendingFor :: "int \<Rightarrow> server \<Rightarrow> bool" where
  "noPendingFor k srv \<longleftrightarrow> (\<forall>h t. pending srv h = Some t \<longrightarrow> callbackSeat t \<noteq> k)"

text \<open>
  What one event can do to one seat object: nothing; free a locked seat; for \<open>/lock\<close>,
  lock a seat that is not booked, or push the expiry of the caller's own lock; for
  \<open>/confirm\<close>, book a locked seat.
\<close>

definition seatMove :: "event \<Rightarrow> seat \<Rightarrow> seat \<Rightarrow> bool" where
  "seatMove ev s s' \<longleftrightarrow>
     s' = s \<or>
     (status s = locked \<and>
      s' = s\<lparr>timeoutId := None, status := available, lockOwner := None,
               lockExpiresAt := None\<rparr>) \<or>
     (case ev of
        LockReq k u now1 now2 now3 \<Rightarrow>
          u \<noteq> [] \<and> status s \<noteq> booked \<and>
          (\<exists>h. s' = s\<lparr>status := locked, lockOwner := Some u,
                         lockExpiresAt := Some (now2 + LOCK_DURATION_MS),
                         timeoutId := Some h\<rparr> \<or>
               status s = locked \<and> lockOwner s = Some u \<and>
               s' = s\<lparr>lockExpiresAt := Some (now2 + LOCK_DURATION_MS),
                        timeoutId := Some h\<rparr>)
      | ConfirmReq k u now \<Rightarrow>
          u \<noteq> [] \<and> status s = locked \<and>
          s' = s\<lparr>timeoutId := None, status := booked, lockOwner := Some u,
                   lockExpiresAt := None\<rparr>
      | _ \<Rightarrow> False)"

text \<open>The shape of a seat: which of owner and expiry are set in which status.\<close>

definition seatShapeOk :: "seat \<Rightarrow> bool" where
  "seatShapeOk s \<longleftrightarrow>
     (status s = available \<or> status s = locked \<or> status s = booked) \<and>
     ((lockOwner s \<noteq> None) = (status s = locked \<or> status s = booked)) \<and>
     ((lockExpiresAt s \<noteq> None) = (status s = locked))"

text \<open>
  A client calling \<open>/lock\<close> for the same seat and user again and again, each call with
  its three clock readings; \<open>withinLease e ts\<close> says that each call is made before the
  expiry in force (\<open>e\<close> at first, then the one the previous call set), and
  \<open>finalExpiry e ts\<close> is the expiry in force after the last call.
\<close>

fun claimRepeatedly ::
  "int \<Rightarrow> userId \<Rightarrow> (millis \<times> millis \<times> millis) list \<Rightarrow> server \<Rightarrow> response list \<times> server" where
  "claimRepeatedly k u [] srv = ([], srv)"
| "claimRepeatedly k u ((now1, now2, now3) # ts) srv =
     (let (r, srv1) = lock k u now1 now2 now3 srv;
          (rs, srv2) = claimRepeatedly k u ts srv1
      in (r # rs, srv2))"

fun withinLease :: "millis \<Rightarrow> (millis \<times> millis \<times> millis) list \<Rightarrow> bool" where
  "withinLease e [] = True"
| "withinLease e ((now1, now2, now3) # ts) =
     (now1 < e \<and> withinLease (now2 + LOCK_DURATION_MS) ts)"

fun finalExpiry :: "millis \<Rightarrow> (millis \<times> millis \<times> millis) list \<Rightarrow> millis" where
  "finalExpiry e [] = e"
| "finalExpiry e ((now1, now2, now3) # ts) = finalExpiry (now2 + LOCK_DURATION_MS) ts"

text \<open>The clock readings an event carries.\<close>

fun readings :: "event \<Rightarrow> millis list" where
  "readings (LockReq k u now1 now2 now3) = [now1, now2, now3]"
| "readings (ConfirmReq k u now) = [now]"
| "readings (ReleaseReq k u) = []"
| "readings (TimerFires h now) = [now]"
| "readings (CleanupTick now) = [now]"

text \<open>
  Two states of the scenario of the test client: alice has locked seat 5 at time 1000,
  and alice has then confirmed it at time 2000.
\<close>

definition aliceLocked :: server where
  "aliceLocked = snd (lock 5 ''alice'' 1000 1000 1000 initialServer)"

definition aliceBooked :: server where
  "aliceBooked = snd (confirm 5 ''alice'' 2000 aliceLocked)"

section \<open>Basic facts about the store\<close>

lemma getSeat_setSeat:
  "getSeat (setSeat k s srv) k' = (if k' = k then Some s else getSeat srv k')"
  by (simp add: getSeat_def setSeat_def update_conv')

lemma getSeat_clearTimeout: "getSeat (clearTimeout h srv) k = getSeat srv k"
  by (simp add: getSeat_def clearTimeout_def)

lemma pending_setSeat: "pending (setSeat k s srv) = pending srv"
  by (simp add: setSeat_def)

lemma nextTimeoutId_setSeat: "nextTimeoutId (setSeat k s srv) = nextTimeoutId srv"
  by (simp add: setSeat_def)

lemma getSeat_pending_update: "getSeat (srv\<lparr>pending := p\<rparr>) k = getSeat srv k"
  by (simp add: getSeat_def)

lemma getSeat_nextTimeoutId_update: "getSeat (srv\<lparr>nextTimeoutId := n\<rparr>) k = getSeat srv k"
  by (simp add: getSeat_def)

lemmas store_simps = getSeat_setSeat getSeat_clearTimeout pending_setSeat nextTimeoutId_setSeat
  getSeat_pending_update getSeat_nextTimeoutId_update

section \<open>What the helpers do to the store\<close>

lemma getSeat_releaseLock:
  "getSeat srv k = Some s \<Longrightarrow>
   getSeat (releaseLock k srv) k' =
     (if k' = k then Some (s\<lparr>timeoutId := None, status := available, lockOwner := None,
                             lockExpiresAt := None\<rparr>)
      else getSeat srv k')"
  by (simp add: releaseLock_def Let_def getSeat_setSeat getSeat_clearTimeout split: option.splits)

lemma getSeat_releaseLock_other:
  "k' \<noteq> k \<Longrightarrow> getSeat (releaseLock k srv) k' = getSeat srv k'"
  by (simp add: releaseLock_def Let_def getSeat_setSeat getSeat_clearTimeout split: option.splits)

lemma pending_releaseLock:
  "getSeat srv k = Some s \<Longrightarrow>
   pending (releaseLock k srv) =
     (case timeoutId s of None \<Rightarrow> pending srv | Some h \<Rightarrow> (pending srv)(h := None))"
  by (simp add: releaseLock_def Let_def pending_setSeat clearTimeout_def split: option.splits)

lemma nextTimeoutId_releaseLock: "nextTimeoutId (releaseLock k srv) = nextTimeoutId srv"
  by (simp add: releaseLock_def Let_def nextTimeoutId_setSeat clearTimeout_def split: option.splits)

lemma getSeat_scheduleAutoRelease:
  "getSeat srv k = Some s \<Longrightarrow>
   getSeat (scheduleAutoRelease k now srv) k' =
     (if k' = k then Some (s\<lparr>timeoutId := Some (nextTimeoutId srv)\<rparr>) else getSeat srv k')"
  by (simp add: scheduleAutoRelease_def Let_def setTimeout_def clearTimeout_def store_simps
      split: option.splits)

lemma getSeat_scheduleAutoRelease_other:
  "k' \<noteq> k \<Longrightarrow> getSeat (scheduleAutoRelease k now srv) k' = getSeat srv k'"
  by (simp add: scheduleAutoRelease_def Let_def setTimeout_def clearTimeout_def store_simps
      split: option.splits)

lemma pending_scheduleAutoRelease:
  "getSeat srv k = Some s \<Longrightarrow>
   pending (scheduleAutoRelease k now srv) =
     ((case timeoutId s of None \<Rightarrow> pending srv | Some h \<Rightarrow> (pending srv)(h := None))
        (nextTimeoutId srv \<mapsto>
           \<lparr>callbackSeat = k,
            delay = max 0 ((case lockExpiresAt s of None \<Rightarrow> 0 | Some e \<Rightarrow> e) - now) + 5\<rparr>))"
  by (simp add: scheduleAutoRelease_def Let_def setTimeout_def pending_setSeat clearTimeout_def
      split: option.splits)

lemma nextTimeoutId_scheduleAutoRelease:
  "getSeat srv k = Some s \<Longrightarrow>
   nextTimeoutId (scheduleAutoRelease k now srv) = Suc (nextTimeoutId srv)"
  by (simp add: scheduleAutoRelease_def Let_def setTimeout_def nextTimeoutId_setSeat clearTimeout_def
      split: option.splits)

section \<open>What the handlers do to the store\<close>

lemma lockAvailable_fst:
  "getSeat srv k = Some s \<Longrightarrow>
   fst (lockAvailable k u now2 now3 srv) =
     Inr (LockAcquired (seat_id s) locked (Some (now2 + LOCK_DURATION_MS)))"
  by (simp add: lockAvailable_def Let_def)

lemma lockAvailable_getSeat:
  "getSeat srv k = Some s \<Longrightarrow>
   getSeat (snd (lockAvailable k u now2 now3 srv)) k' =
     (if k' = k
      then Some (s\<lparr>status := locked, lockOwner := Some u,
                   lockExpiresAt := Some (now2 + LOCK_DURATION_MS),
                   timeoutId := Some (nextTimeoutId srv)\<rparr>)
      else getSeat srv k')"
  by (simp add: lockAvailable_def Let_def getSeat_scheduleAutoRelease store_simps)

lemma lockAvailable_pending:
  "getSeat srv k = Some s \<Longrightarrow>
   pending (snd (lockAvailable k u now2 now3 srv)) =
     ((case timeoutId s of None \<Rightarrow> pending srv | Some h \<Rightarrow> (pending srv)(h := None))
        (nextTimeoutId srv \<mapsto>
           \<lparr>callbackSeat = k, delay = max 0 (now2 + LOCK_DURATION_MS - now3) + 5\<rparr>))"
  by (simp add: lockAvailable_def Let_def pending_scheduleAutoRelease store_simps
      split: option.splits)

lemma lockAvailable_nextTimeoutId:
  "getSeat srv k = Some s \<Longrightarrow>
   nextTimeoutId (snd (lockAvailable k u now2 now3 srv)) = Suc (nextTimeoutId srv)"
  by (simp add: lockAvailable_def Let_def nextTimeoutId_scheduleAutoRelease store_simps)

lemma lock_refresh:
  assumes "getSeat srv k = Some seat" and "status seat = locked"
    and "lockOwner seat = Some A" and "A \<noteq> []"
    and "lockExpiresAt seat = Some e" and "now1 < e"
  shows "fst (lock k A now1 now2 now3 srv) =
           Inr (LockRefreshed (seat_id seat) locked (Some (now2 + LOCK_DURATION_MS)))"
    and "getSeat (snd (lock k A now1 now2 now3 srv)) k' =
           (if k' = k
            then Some (seat\<lparr>lockExpiresAt := Some (now2 + LOCK_DURATION_MS),
                            timeoutId := Some (nextTimeoutId srv)\<rparr>)
            else getSeat srv k')"
    and "pending (snd (lock k A now1 now2 now3 srv)) =
     ((case timeoutId seat of None \<Rightarrow> pending srv | Some h \<Rightarrow> (pending srv)(h := None))
        (nextTimeoutId srv \<mapsto>
           \<lparr>callbackSeat = k, delay = max 0 (now2 + LOCK_DURATION_MS - now3) + 5\<rparr>))"
    and "nextTimeoutId (snd (lock k A now1 now2 now3 srv)) = Suc (nextTimeoutId srv)"
  using assms by (simp_all add: lock_def Let_def getSeat_scheduleAutoRelease
      pending_scheduleAutoRelease nextTimeoutId_scheduleAutoRelease store_simps
      split: option.splits)

section \<open>The cleanup loop\<close>

lemma cleanupSeat_other: "k' \<noteq> k \<Longrightarrow> getSeat (cleanupSeat now k srv) k' = getSeat srv k'"
  by (simp add: cleanupSeat_def getSeat_releaseLock_other split: option.splits)

lemma cleanupSeat_same:
  "getSeat srv k = Some s \<Longrightarrow>
   getSeat (cleanupSeat now k srv) k =
     (if status s = locked \<and> (case lockExpiresAt s of None \<Rightarrow> False | Some e \<Rightarrow> e \<noteq> 0 \<and> e \<le> now)
      then Some (s\<lparr>timeoutId := None, status := available, lockOwner := None,
                   lockExpiresAt := None\<rparr>)
      else Some s)"
  by (simp add: cleanupSeat_def getSeat_releaseLock split: option.splits)

lemma fold_cleanupSeat_notin:
  "k \<notin> set ks \<Longrightarrow> getSeat (fold (cleanupSeat now) ks srv) k = getSeat srv k"
  by (induction ks arbitrary: srv) (simp_all add: cleanupSeat_other)

lemma fold_cleanupSeat_stable:
  "getSeat srv k = Some s \<Longrightarrow>
   \<not> (status s = locked \<and> (case lockExpiresAt s of None \<Rightarrow> False | Some e \<Rightarrow> e \<noteq> 0 \<and> e \<le> now)) \<Longrightarrow>
   getSeat (fold (cleanupSeat now) ks srv) k = Some s"
proof (induction ks arbitrary: srv)
  case Nil
  then show ?case by simp
next
  case (Cons j ks)
  have "getSeat (cleanupSeat now j srv) k = Some s"
  proof (cases "j = k")
    case True
    with Cons.prems show ?thesis by (auto simp: cleanupSeat_same)
  next
    case False
    with Cons.prems show ?thesis by (simp add: cleanupSeat_other)
  qed
  with Cons.IH Cons.prems(2) show ?case by simp
qed

lemma fold_cleanupSeat_due:
  assumes "getSeat srv k = Some s" and "k \<in> set ks"
    and "status s = locked" and "lockExpiresAt s = Some e" and "e \<noteq> 0" and "e \<le> now"
  shows "getSeat (fold (cleanupSeat now) ks srv) k =
           Some (s\<lparr>timeoutId := None, status := available, lockOwner := None,
                    lockExpiresAt := None\<rparr>)"
  using assms
proof (induction ks arbitrary: srv)
  case Nil
  then show ?case by simp
next
  case (Cons j ks)
  show ?case
  proof (cases "j = k")
    case True
    have "getSeat (cleanupSeat now j srv) k =
            Some (s\<lparr>timeoutId := None, status := available, lockOwner := None,
                     lockExpiresAt := None\<rparr>)"
      using True Cons.prems by (simp add: cleanupSeat_same)
    then show ?thesis
      by (simp add: fold_cleanupSeat_stable)
  next
    case False
    then have "getSeat (cleanupSeat now j srv) k = Some s"
      using Cons.prems by (simp add: cleanupSeat_other)
    moreover have "k \<in> set ks" using False Cons.prems by simp
    ultimately show ?thesis
      using Cons.IH Cons.prems by simp
  qed
qed

lemma getSeat_key: "getSeat srv k = Some s \<Longrightarrow> k \<in> set (map fst (seats srv))"
  by (auto simp: getSeat_def dest: map_of_SomeD intro: rev_image_eqI)

lemma cleanup_getSeat:
  assumes "getSeat srv k = Some s"
  shows "getSeat (cleanup now srv) k =
     (if status s = locked \<and> (case lockExpiresAt s of None \<Rightarrow> False | Some e \<Rightarrow> e \<noteq> 0 \<and> e \<le> now)
      then Some (s\<lparr>timeoutId := None, status := available, lockOwner := None,
                   lockExpiresAt := None\<rparr>)
      else Some s)"
proof (cases "status s = locked \<and> (case lockExpiresAt s of None \<Rightarrow> False | Some e \<Rightarrow> e \<noteq> 0 \<and> e \<le> now)")
  case True
  then obtain e where "status s = locked" "lockExpiresAt s = Some e" "e \<noteq> 0" "e \<le> now"
    by (auto split: option.splits)
  with assms True show ?thesis
    unfolding cleanup_def
    using fold_cleanupSeat_due [OF assms getSeat_key [OF assms], of e now] by simp
next
  case False
  with assms show ?thesis
    unfolding cleanup_def using fold_cleanupSeat_stable [OF assms False] by auto
qed

lemma cleanup_getSeat_None: "getSeat srv k = None \<Longrightarrow> getSeat (cleanup now srv) k = None"
proof -
  assume a: "getSeat srv k = None"
  then have "k \<notin> set (map fst (seats srv))"
    by (simp add: getSeat_def map_of_eq_None_iff)
  then show ?thesis unfolding cleanup_def using a by (simp add: fold_cleanupSeat_notin)
qed

lemma autoReleaseCallback_getSeat:
  "getSeat srv k = Some s \<Longrightarrow>
   getSeat (autoReleaseCallback k now srv) k =
     (if status s = locked \<and> (case lockExpiresAt s of None \<Rightarrow> False | Some e \<Rightarrow> e \<noteq> 0 \<and> e \<le> now)
      then Some (s\<lparr>timeoutId := None, status := available, lockOwner := None,
                   lockExpiresAt := None\<rparr>)
      else Some s)"
  by (simp add: autoReleaseCallback_def getSeat_releaseLock split: option.splits)

lemma autoReleaseCallback_other:
  "k' \<noteq> k \<Longrightarrow> getSeat (autoReleaseCallback k now srv) k' = getSeat srv k'"
  by (simp add: autoReleaseCallback_def getSeat_releaseLock_other split: option.splits)

section \<open>Every event moves each seat by one of the moves\<close>

lemma lockAvailable_other:
  "k' \<noteq> k \<Longrightarrow> getSeat (snd (lockAvailable k u now2 now3 srv)) k' = getSeat srv k'"
  by (simp add: lockAvailable_def Let_def getSeat_scheduleAutoRelease_other store_simps
      split: option.splits)

lemma lock_other:
  "k' \<noteq> k \<Longrightarrow> getSeat (snd (lock k u now1 now2 now3 srv)) k' = getSeat srv k'"
  by (simp add: lock_def Let_def lockAvailable_other getSeat_releaseLock_other
      getSeat_scheduleAutoRelease_other store_simps split: option.splits)

lemma confirm_other:
  "k' \<noteq> k \<Longrightarrow> getSeat (snd (confirm k u now srv)) k' = getSeat srv k'"
  by (simp add: confirm_def Let_def getSeat_releaseLock_other store_simps split: option.splits)

lemma release_other:
  "k' \<noteq> k \<Longrightarrow> getSeat (snd (release k u srv)) k' = getSeat srv k'"
  by (simp add: release_def getSeat_releaseLock_other split: option.splits)

lemma lock_seatMove:
  assumes "getSeat srv k = Some s"
  shows "\<exists>s'. getSeat (snd (lock k0 u now1 now2 now3 srv)) k = Some s' \<and>
              seatMove (LockReq k0 u now1 now2 now3) s s'"
proof (cases "k = k0")
  case False
  with assms show ?thesis by (simp add: lock_other seatMove_def)
next
  case True
  with assms show ?thesis
    by (auto simp: lock_def Let_def seatMove_def lockAvailable_getSeat getSeat_releaseLock
        getSeat_scheduleAutoRelease store_simps split: option.splits)
qed

lemma confirm_seatMove:
  assumes "getSeat srv k = Some s"
  shows "\<exists>s'. getSeat (snd (confirm k0 u now srv)) k = Some s' \<and>
              seatMove (ConfirmReq k0 u now) s s'"
proof (cases "k = k0")
  case False
  with assms show ?thesis by (simp add: confirm_other seatMove_def)
next
  case True
  with assms show ?thesis
    by (auto simp: confirm_def Let_def seatMove_def getSeat_releaseLock store_simps
        split: option.splits)
qed

lemma release_seatMove:
  assumes "getSeat srv k = Some s"
  shows "\<exists>s'. getSeat (snd (release k0 u srv)) k = Some s' \<and> seatMove (ReleaseReq k0 u) s s'"
proof (cases "k = k0")
  case False
  with assms show ?thesis by (simp add: release_other seatMove_def)
next
  case True
  with assms show ?thesis
    by (auto simp: release_def seatMove_def getSeat_releaseLock)
qed

lemma timerFires_seatMove:
  assumes "getSeat srv k = Some s"
  shows "\<exists>s'. getSeat (timerFires h now srv) k = Some s' \<and> seatMove (TimerFires h now) s s'"
proof (cases "pending srv h")
  case None
  with assms show ?thesis by (simp add: timerFires_def seatMove_def)
next
  case (Some t)
  have g: "getSeat (clearTimeout h srv) k = Some s"
    using assms by (simp add: getSeat_clearTimeout)
  show ?thesis
  proof (cases "callbackSeat t = k")
    case True
    with Some g show ?thesis
      by (auto simp: timerFires_def seatMove_def autoReleaseCallback_getSeat)
  next
    case False
    with Some g show ?thesis
      by (simp add: timerFires_def seatMove_def autoReleaseCallback_other)
  qed
qed

lemma cleanup_seatMove:
  assumes "getSeat srv k = Some s"
  shows "\<exists>s'. getSeat (cleanup now srv) k = Some s' \<and> seatMove (CleanupTick now) s s'"
  using assms by (auto simp: cleanup_getSeat seatMove_def)

lemma step_seatMove:
  assumes "getSeat srv k = Some s"
  shows "\<exists>s'. getSeat (step ev srv) k = Some s' \<and> seatMove ev s s'"
proof (cases ev)
  case (LockReq k0 u now1 now2 now3)
  then show ?thesis using lock_seatMove [OF assms] by simp
next
  case (ConfirmReq k0 u now)
  then show ?thesis using confirm_seatMove [OF assms] by simp
next
  case (ReleaseReq k0 u)
  then show ?thesis using release_seatMove [OF assms] by simp
next
  case (TimerFires h now)
  then show ?thesis using timerFires_seatMove [OF assms] by simp
next
  case (CleanupTick now)
  then show ?thesis using cleanup_seatMove [OF assms] by simp
qed

lemma step_getSeat_None:
  assumes "getSeat srv k = None"
  shows "getSeat (step ev srv) k = None"
proof (cases ev)
  case (LockReq k0 u now1 now2 now3)
  show ?thesis
  proof (cases "k = k0")
    case True
    with assms LockReq show ?thesis by (simp add: lock_def)
  next
    case False
    with assms LockReq show ?thesis by (simp add: lock_other)
  qed
next
  case (ConfirmReq k0 u now)
  show ?thesis
  proof (cases "k = k0")
    case True
    with assms ConfirmReq show ?thesis by (simp add: confirm_def)
  next
    case False
    with assms ConfirmReq show ?thesis by (simp add: confirm_other)
  qed
next
  case (ReleaseReq k0 u)
  show ?thesis
  proof (cases "k = k0")
    case True
    with assms ReleaseReq show ?thesis by (simp add: release_def)
  next
    case False
    with assms ReleaseReq show ?thesis by (simp add: release_other)
  qed
next
  case (TimerFires h now)
  show ?thesis
  proof (cases "pending srv h")
    case None
    with assms TimerFires show ?thesis by (simp add: timerFires_def)
  next
    case (Some t)
    show ?thesis
    proof (cases "callbackSeat t = k")
      case True
      with assms TimerFires Some show ?thesis
        by (simp add: timerFires_def autoReleaseCallback_def getSeat_clearTimeout)
    next
      case False
      with assms TimerFires Some show ?thesis
        by (simp add: timerFires_def autoReleaseCallback_other getSeat_clearTimeout)
    qed
  qed
next
  case (CleanupTick now)
  with assms show ?thesis by (simp add: cleanup_getSeat_None)
qed

section \<open>Pending timeouts are held by their seats, in every run\<close>

lemma timersOk_releaseLock: "timersOk srv \<Longrightarrow> timersOk (releaseLock k srv)"
proof (cases "getSeat srv k")
  case None
  assume "timersOk srv"
  with None show ?thesis by (simp add: releaseLock_def)
next
  case (Some s)
  assume ok: "timersOk srv"
  show ?thesis
    unfolding timersOk_def
  proof (intro allI impI)
    fix h t
    assume p: "pending (releaseLock k srv) h = Some t"
    from p Some have p0: "pending srv h = Some t" and nh: "timeoutId s \<noteq> Some h"
      by (auto simp: pending_releaseLock split: option.splits if_splits)
    from ok p0 obtain s0 where lt: "h < nextTimeoutId srv"
      and g0: "getSeat srv (callbackSeat t) = Some s0" and t0: "timeoutId s0 = Some h"
      by (auto simp: timersOk_def)
    from g0 t0 nh Some have "callbackSeat t \<noteq> k" by auto
    with g0 t0 lt
    show "h < nextTimeoutId (releaseLock k srv) \<and>
          (\<exists>s. getSeat (releaseLock k srv) (callbackSeat t) = Some s \<and> timeoutId s = Some h)"
      by (simp add: nextTimeoutId_releaseLock getSeat_releaseLock_other)
  qed
qed

lemma noPendingFor_releaseLock:
  assumes ok: "timersOk srv" and g: "getSeat srv k = Some s"
  shows "noPendingFor k (releaseLock k srv)"
  unfolding noPendingFor_def
proof (intro allI impI)
  fix h t
  assume p: "pending (releaseLock k srv) h = Some t"
  from p g have p0: "pending srv h = Some t" and nh: "timeoutId s \<noteq> Some h"
    by (auto simp: pending_releaseLock split: option.splits if_splits)
  from ok p0 obtain s0 where "getSeat srv (callbackSeat t) = Some s0" "timeoutId s0 = Some h"
    by (auto simp: timersOk_def)
  with nh g show "callbackSeat t \<noteq> k" by auto
qed

lemma timersOk_scheduleAutoRelease:
  "timersOk srv \<Longrightarrow> timersOk (scheduleAutoRelease k now srv)"
proof (cases "getSeat srv k")
  case None
  assume "timersOk srv"
  with None show ?thesis by (simp add: scheduleAutoRelease_def)
next
  case (Some s)
  assume ok: "timersOk srv"
  show ?thesis
    unfolding timersOk_def
  proof (intro allI impI)
    fix h t
    assume p: "pending (scheduleAutoRelease k now srv) h = Some t"
    show "h < nextTimeoutId (scheduleAutoRelease k now srv) \<and>
          (\<exists>s. getSeat (scheduleAutoRelease k now srv) (callbackSeat t) = Some s \<and>
               timeoutId s = Some h)"
    proof (cases "h = nextTimeoutId srv")
      case True
      with p Some show ?thesis
        by (auto simp: pending_scheduleAutoRelease nextTimeoutId_scheduleAutoRelease
            getSeat_scheduleAutoRelease)
    next
      case False
      with p Some have p0: "pending srv h = Some t" and nh: "timeoutId s \<noteq> Some h"
        by (auto simp: pending_scheduleAutoRelease split: option.splits if_splits)
      from ok p0 obtain s0 where lt: "h < nextTimeoutId srv"
        and g0: "getSeat srv (callbackSeat t) = Some s0" and t0: "timeoutId s0 = Some h"
        by (auto simp: timersOk_def)
      from g0 t0 nh Some have "callbackSeat t \<noteq> k" by auto
      with g0 t0 lt Some show ?thesis
        by (simp add: nextTimeoutId_scheduleAutoRelease getSeat_scheduleAutoRelease_other)
    qed
  qed
qed

lemma timersOk_setSeat:
  assumes "timersOk srv" and "getSeat srv k = Some s" and "timeoutId s' = timeoutId s"
  shows "timersOk (setSeat k s' srv)"
  unfolding timersOk_def
proof (intro allI impI)
  fix h t
  assume "pending (setSeat k s' srv) h = Some t"
  then have p0: "pending srv h = Some t" by (simp add: store_simps)
  from assms(1) p0 obtain s0 where lt: "h < nextTimeoutId srv"
    and g0: "getSeat srv (callbackSeat t) = Some s0" and t0: "timeoutId s0 = Some h"
    by (auto simp: timersOk_def)
  with assms(2,3)
  show "h < nextTimeoutId (setSeat k s' srv) \<and>
        (\<exists>s. getSeat (setSeat k s' srv) (callbackSeat t) = Some s \<and> timeoutId s = Some h)"
    by (auto simp: store_simps)
qed

lemma timersOk_clearTimeout: "timersOk srv \<Longrightarrow> timersOk (clearTimeout h srv)"
  by (auto simp: timersOk_def clearTimeout_def getSeat_pending_update)

lemma timersOk_book:
  assumes ok: "timersOk srv" and g: "getSeat srv k = Some s"
  shows "timersOk (setSeat k s'
           (case timeoutId s of Some h \<Rightarrow> clearTimeout h srv | None \<Rightarrow> srv))"
  unfolding timersOk_def
proof (intro allI impI)
  fix h t
  let ?srv1 = "case timeoutId s of Some h \<Rightarrow> clearTimeout h srv | None \<Rightarrow> srv"
  assume p: "pending (setSeat k s' ?srv1) h = Some t"
  then have p0: "pending srv h = Some t" and nh: "timeoutId s \<noteq> Some h"
    by (auto simp: store_simps clearTimeout_def split: option.splits if_splits)
  from ok p0 obtain s0 where lt: "h < nextTimeoutId srv"
    and g0: "getSeat srv (callbackSeat t) = Some s0" and t0: "timeoutId s0 = Some h"
    by (auto simp: timersOk_def)
  from g0 t0 nh g have "callbackSeat t \<noteq> k" by auto
  with g0 t0 lt
  show "h < nextTimeoutId (setSeat k s' ?srv1) \<and>
        (\<exists>s. getSeat (setSeat k s' ?srv1) (callbackSeat t) = Some s \<and> timeoutId s = Some h)"
    by (auto simp: store_simps clearTimeout_def split: option.splits)
qed

lemma timersOk_lockAvailable:
  "timersOk srv \<Longrightarrow> timersOk (snd (lockAvailable k u now2 now3 srv))"
  by (auto simp: lockAvailable_def Let_def intro!: timersOk_scheduleAutoRelease timersOk_setSeat
      split: option.splits)

lemma timersOk_lock: "timersOk srv \<Longrightarrow> timersOk (snd (lock k u now1 now2 now3 srv))"
  by (auto simp: lock_def Let_def
      intro!: timersOk_lockAvailable timersOk_releaseLock timersOk_scheduleAutoRelease
        timersOk_setSeat
      split: option.splits)

lemma timersOk_confirm: "timersOk srv \<Longrightarrow> timersOk (snd (confirm k u now srv))"
  by (cases "getSeat srv k")
    (simp_all add: confirm_def Let_def timersOk_releaseLock timersOk_book)

lemma timersOk_release: "timersOk srv \<Longrightarrow> timersOk (snd (release k u srv))"
  by (auto simp: release_def intro!: timersOk_releaseLock split: option.splits)

lemma timersOk_autoReleaseCallback:
  "timersOk srv \<Longrightarrow> timersOk (autoReleaseCallback k now srv)"
  by (auto simp: autoReleaseCallback_def intro!: timersOk_releaseLock split: option.splits)

lemma timersOk_timerFires: "timersOk srv \<Longrightarrow> timersOk (timerFires h now srv)"
  by (auto simp: timerFires_def intro!: timersOk_autoReleaseCallback timersOk_clearTimeout
      split: option.splits)

lemma timersOk_cleanupSeat: "timersOk srv \<Longrightarrow> timersOk (cleanupSeat now k srv)"
  by (auto simp: cleanupSeat_def intro!: timersOk_releaseLock split: option.splits)

lemma timersOk_fold_cleanupSeat:
  "timersOk srv \<Longrightarrow> timersOk (fold (cleanupSeat now) ks srv)"
  by (induction ks arbitrary: srv) (simp_all add: timersOk_cleanupSeat)

lemma timersOk_step: "timersOk srv \<Longrightarrow> timersOk (step ev srv)"
  by (cases ev)
    (simp_all add: timersOk_lock timersOk_confirm timersOk_release timersOk_timerFires
      timersOk_fold_cleanupSeat cleanup_def)

lemma timersOk_run: "timersOk srv \<Longrightarrow> timersOk (run evs srv)"
  unfolding run_def by (induction evs arbitrary: srv) (simp_all add: timersOk_step)

lemma timersOk_initialServer: "timersOk initialServer"
  by (simp add: timersOk_def initialServer_def)

lemma timersOk_reachable: "timersOk (run evs initialServer)"
  by (simp add: timersOk_run timersOk_initialServer)

section \<open>Invariants of runs\<close>

text \<open>
  A property of seats that holds at the start and that every move keeps holds for every
  seat of every state of a run (\<open>run_seat_invariant\<close>). With clock readings that are
  not negative, every expiry stored in a run from the initial state is at least the lock
  duration, so never the 0 that the expiry tests take for "no expiry"
  (\<open>run_expiry_positive\<close>).
\<close>

lemma step_seatMove_back:
  assumes "getSeat (step ev srv) k = Some s'"
  shows "\<exists>s. getSeat srv k = Some s \<and> seatMove ev s s'"
proof (cases "getSeat srv k")
  case None
  with assms show ?thesis by (simp add: step_getSeat_None)
next
  case (Some s)
  with step_seatMove [OF Some, of ev] assms show ?thesis by auto
qed

lemma run_Cons: "run (ev # evs) srv = run evs (step ev srv)"
  by (simp add: run_def)

lemma run_Nil: "run [] srv = srv"
  by (simp add: run_def)

lemma run_seat_invariant:
  assumes "\<And>k s. getSeat srv k = Some s \<Longrightarrow> P s"
    and "\<And>ev s s'. ev \<in> set evs \<Longrightarrow> P s \<Longrightarrow> seatMove ev s s' \<Longrightarrow> P s'"
    and "getSeat (run evs srv) k = Some s"
  shows "P s"
  using assms
proof (induction evs arbitrary: srv)
  case Nil
  then show ?case by (simp add: run_Nil)
next
  case (Cons ev evs)
  have "\<And>k s. getSeat (step ev srv) k = Some s \<Longrightarrow> P s"
  proof -
    fix k' s'
    assume "getSeat (step ev srv) k' = Some s'"
    then obtain s0 where "getSeat srv k' = Some s0" "seatMove ev s0 s'"
      using step_seatMove_back by blast
    then show "P s'" using Cons.prems(1,2) by (meson list.set_intros(1))
  qed
  moreover have "\<And>ev' s s'. ev' \<in> set evs \<Longrightarrow> P s \<Longrightarrow> seatMove ev' s s' \<Longrightarrow> P s'"
    using Cons.prems(2) by (meson list.set_intros(2))
  moreover have "getSeat (run evs (step ev srv)) k = Some s"
    using Cons.prems(3) by (simp add: run_Cons)
  ultimately show ?case by (rule Cons.IH)
qed

lemma run_seat_exists:
  "getSeat srv k = Some s \<Longrightarrow> \<exists>s'. getSeat (run evs srv) k = Some s'"
proof (induction evs arbitrary: srv s)
  case Nil
  then show ?case by (simp add: run_Nil)
next
  case (Cons ev evs)
  from step_seatMove [OF Cons.prems, of ev] obtain s1 where "getSeat (step ev srv) k = Some s1"
    by blast
  then show ?case using Cons.IH by (simp add: run_Cons)
qed

lemma seatMove_booked: "seatMove ev s s' \<Longrightarrow> status s = booked \<Longrightarrow> s' = s"
  by (auto simp: seatMove_def split: event.splits)

lemma seatMove_shape: "seatMove ev s s' \<Longrightarrow> seatShapeOk s \<Longrightarrow> seatShapeOk s'"
  by (auto simp: seatMove_def seatShapeOk_def split: event.splits)

lemma seatMove_expiry:
  assumes "seatMove ev s s'" and "\<forall>t \<in> set (readings ev). 0 \<le> t"
    and "\<forall>e. lockExpiresAt s = Some e \<longrightarrow> LOCK_DURATION_MS \<le> e"
  shows "\<forall>e. lockExpiresAt s' = Some e \<longrightarrow> LOCK_DURATION_MS \<le> e"
  using assms by (auto simp: seatMove_def split: event.splits)

lemma step_booked:
  assumes "getSeat srv k = Some s" and "status s = booked"
  shows "getSeat (step ev srv) k = Some s"
  using step_seatMove [OF assms(1), of ev] seatMove_booked [OF _ assms(2)] by auto

lemma run_booked:
  "getSeat srv k = Some s \<Longrightarrow> status s = booked \<Longrightarrow> getSeat (run evs srv) k = Some s"
  by (induction evs arbitrary: srv) (simp_all add: run_Nil run_Cons step_booked)

lemma getSeat_initialServer:
  "getSeat initialServer k = (if 1 \<le> k \<and> k \<le> 20 then Some (initialSeat k) else None)"
  by (simp add: getSeat_def initialServer_def map_of_map_restrict restrict_map_def)

lemma initialSeat_shape: "seatShapeOk (initialSeat i)"
  by (simp add: seatShapeOk_def initialSeat_def)

lemma run_expiry_positive:
  assumes "\<forall>ev \<in> set evs. \<forall>t \<in> set (readings ev). 0 \<le> t"
    and "getSeat (run evs initialServer) k = Some s" and "lockExpiresAt s = Some e"
  shows "LOCK_DURATION_MS \<le> e"
proof -
  have "\<forall>e. lockExpiresAt s = Some e \<longrightarrow> LOCK_DURATION_MS \<le> e"
  proof (rule run_seat_invariant [where P = "\<lambda>s. \<forall>e. lockExpiresAt s = Some e \<longrightarrow> LOCK_DURATION_MS \<le> e"
        and srv = initialServer and evs = evs and k = k])
    fix k' s'
    assume "getSeat initialServer k' = Some s'"
    then show "\<forall>e. lockExpiresAt s' = Some e \<longrightarrow> LOCK_DURATION_MS \<le> e"
      by (auto simp: getSeat_initialServer initialSeat_def split: if_splits)
  next
    fix ev s0 s'
    assume "ev \<in> set evs" "\<forall>e. lockExpiresAt s0 = Some e \<longrightarrow> LOCK_DURATION_MS \<le> e"
      "seatMove ev s0 s'"
    with assms(1) show "\<forall>e. lockExpiresAt s' = Some e \<longrightarrow> LOCK_DURATION_MS \<le> e"
      using seatMove_expiry by blast
  next
    show "getSeat (run evs initialServer) k = Some s" by (rule assms(2))
  qed
  with assms(3) show ?thesis by simp
qed

lemma cleanupSeat_id:
  "(\<And>s. getSeat srv k = Some s \<Longrightarrow>
      \<not> (status s = locked \<and>
         (case lockExpiresAt s of None \<Rightarrow> False | Some e \<Rightarrow> e \<noteq> 0 \<and> e \<le> now))) \<Longrightarrow>
   cleanupSeat now k srv = srv"
  by (auto simp: cleanupSeat_def split: option.splits)

lemma fold_cleanupSeat_id:
  "(\<And>k. k \<in> set ks \<Longrightarrow> cleanupSeat now k srv = srv) \<Longrightarrow> fold (cleanupSeat now) ks srv = srv"
  by (induction ks) simp_all

lemma cleanup_id:
  assumes "\<And>k s. getSeat srv k = Some s \<Longrightarrow>
      \<not> (status s = locked \<and>
         (case lockExpiresAt s of None \<Rightarrow> False | Some e \<Rightarrow> e \<noteq> 0 \<and> e \<le> now))"
  shows "cleanup now srv = srv"
  unfolding cleanup_def
  by (rule fold_cleanupSeat_id) (rule cleanupSeat_id, rule assms)

lemma lock_available:
  assumes "getSeat srv k = Some s" and "status s = available" and "u \<noteq> []"
  shows "fst (lock k u now1 now2 now3 srv) =
           Inr (LockAcquired (seat_id s) locked (Some (now2 + LOCK_DURATION_MS)))"
    and "getSeat (snd (lock k u now1 now2 now3 srv)) k =
           Some (s\<lparr>status := locked, lockOwner := Some u,
                    lockExpiresAt := Some (now2 + LOCK_DURATION_MS),
                    timeoutId := Some (nextTimeoutId srv)\<rparr>)"
    and "pending (snd (lock k u now1 now2 now3 srv)) =
     ((case timeoutId s of None \<Rightarrow> pending srv | Some h \<Rightarrow> (pending srv)(h := None))
        (nextTimeoutId srv \<mapsto>
           \<lparr>callbackSeat = k, delay = max 0 (now2 + LOCK_DURATION_MS - now3) + 5\<rparr>))"
  using assms by (simp_all add: lock_def lockAvailable_fst lockAvailable_getSeat
      lockAvailable_pending)

lemma claimRepeatedly_refresh:
  assumes "getSeat srv k = Some s" and "status s = locked" and "lockOwner s = Some A"
    and "A \<noteq> []" and "lockExpiresAt s = Some e" and "withinLease e ts"
  shows "fst (claimRepeatedly k A ts srv) =
           map (\<lambda>(now1, now2, now3).
                  Inr (LockRefreshed (seat_id s) locked (Some (now2 + LOCK_DURATION_MS)))) ts \<and>
         (\<exists>s'. getSeat (snd (claimRepeatedly k A ts srv)) k = Some s' \<and>
               seat_id s' = seat_id s \<and> status s' = locked \<and> lockOwner s' = Some A \<and>
               lockExpiresAt s' = Some (finalExpiry e ts))"
  using assms
proof (induction ts arbitrary: srv s e)
  case Nil
  then show ?case by simp
next
  case (Cons t ts)
  obtain now1 now2 now3 where t: "t = (now1, now2, now3)" by (cases t) auto
  let ?srv1 = "snd (lock k A now1 now2 now3 srv)"
  let ?s1 = "s\<lparr>lockExpiresAt := Some (now2 + LOCK_DURATION_MS),
                timeoutId := Some (nextTimeoutId srv)\<rparr>"
  from Cons.prems t have lt: "now1 < e" and rest: "withinLease (now2 + LOCK_DURATION_MS) ts"
    by simp_all
  have r: "fst (lock k A now1 now2 now3 srv) =
             Inr (LockRefreshed (seat_id s) locked (Some (now2 + LOCK_DURATION_MS)))"
    using lock_refresh(1) [OF Cons.prems(1-5) lt] .
  have g: "getSeat ?srv1 k = Some ?s1"
    using lock_refresh(2) [OF Cons.prems(1-5) lt, of now2 now3 k] by simp
  have ih: "fst (claimRepeatedly k A ts ?srv1) =
           map (\<lambda>(now1, now2, now3).
                  Inr (LockRefreshed (seat_id ?s1) locked (Some (now2 + LOCK_DURATION_MS)))) ts \<and>
         (\<exists>s'. getSeat (snd (claimRepeatedly k A ts ?srv1)) k = Some s' \<and>
               seat_id s' = seat_id ?s1 \<and> status s' = locked \<and> lockOwner s' = Some A \<and>
               lockExpiresAt s' = Some (finalExpiry (now2 + LOCK_DURATION_MS) ts))"
    using Cons.prems(2,3,4) rest by (intro Cons.IH [OF g]) simp_all
  show ?case
    using ih r t by (simp add: Let_def split_beta)
qed

section \<open>The scenario states\<close>

lemma aliceLocked_getSeat:
  "getSeat aliceLocked k =
     (if k = 5
      then Some \<lparr>seat_id = 5, status = locked, lockOwner = Some ''alice'',
                 lockExpiresAt = Some 61000, timeoutId = Some 1\<rparr>
      else getSeat initialServer k)"
proof (cases "k = 5")
  case True
  have "getSeat initialServer 5 = Some (initialSeat 5)" by (simp add: getSeat_initialServer)
  from lock_available(2) [OF this, of "''alice''" 1000 1000 1000] True
  show ?thesis
    by (simp add: aliceLocked_def initialSeat_def initialServer_def LOCK_DURATION_MS_def)
next
  case False
  then show ?thesis by (simp add: aliceLocked_def lock_other)
qed

lemma aliceLocked_seat5:
  "getSeat aliceLocked 5 =
     Some \<lparr>seat_id = 5, status = locked, lockOwner = Some ''alice'',
           lockExpiresAt = Some 61000, timeoutId = Some 1\<rparr>"
  by (simp add: aliceLocked_getSeat)

lemma aliceLocked_pending:
  "pending aliceLocked = [1 \<mapsto> \<lparr>callbackSeat = 5, delay = 60005\<rparr>]"
proof -
  have "getSeat initialServer 5 = Some (initialSeat 5)" by (simp add: getSeat_initialServer)
  from lock_available(3) [OF this, of "''alice''" 1000 1000 1000]
  show ?thesis
    by (simp add: aliceLocked_def initialSeat_def initialServer_def LOCK_DURATION_MS_def)
qed

lemma aliceLocked_nextTimeoutId: "nextTimeoutId aliceLocked = 2"
proof -
  have g: "getSeat initialServer 5 = Some (initialSeat 5)" by (simp add: getSeat_initialServer)
  show ?thesis
    by (simp add: aliceLocked_def lock_def g initialSeat_def lockAvailable_nextTimeoutId [OF g])
      (simp add: initialServer_def)
qed

lemma aliceLocked_timersOk: "timersOk aliceLocked"
  by (simp add: aliceLocked_def timersOk_lock timersOk_initialServer)

lemma aliceBooked_seat5:
  "getSeat aliceBooked 5 =
     Some \<lparr>seat_id = 5, status = booked, lockOwner = Some ''alice'',
           lockExpiresAt = None, timeoutId = None\<rparr>"
  by (simp add: aliceBooked_def confirm_def aliceLocked_seat5 store_simps)

lemma onlyPending_refresh:
  assumes ok: "timersOk srv" and g: "getSeat srv k = Some seat"
    and p: "((case timeoutId seat of None \<Rightarrow> pending srv | Some h \<Rightarrow> (pending srv)(h := None))
              (n \<mapsto> x)) h = Some t"
    and c: "callbackSeat t = k"
  shows "h = n"
proof (rule ccontr)
  assume "h \<noteq> n"
  with p have p0: "pending srv h = Some t" and nh: "timeoutId seat \<noteq> Some h"
    by (auto split: option.splits if_splits)
  from ok p0 obtain s0 where "getSeat srv (callbackSeat t) = Some s0" "timeoutId s0 = Some h"
    by (auto simp: timersOk_def)
  with c g nh show False by simp
qed

lemma lock_expired_fst:
  assumes "getSeat srv k = Some seat" and "status seat = locked"
    and "lockExpiresAt seat = Some e" and "e \<noteq> 0" and "e \<le> now1" and "B \<noteq> []"
  shows "fst (lock k B now1 now2 now3 srv) =
           Inr (LockAcquired (seat_id seat) locked (Some (now2 + LOCK_DURATION_MS)))"
  using assms by (simp add: lock_def getSeat_releaseLock lockAvailable_fst)

lemma run_alice_books:
  "run [LockReq 5 ''alice'' 1000 1000 1000, ConfirmReq 5 ''alice'' 2000] initialServer =
     aliceBooked"
  by (simp add: run_def aliceBooked_def aliceLocked_def)

section \<open>The claims\<close>

text \<open>
  Claim C1 (mutual exclusion). A seat is locked by \<open>A\<close> and the clock reading of the
  expiry test is still before \<open>lockExpiresAt\<close>. Then \<open>/lock\<close> by any other user \<open>B\<close>
  answers with the lock conflict that names \<open>A\<close>, and the server state is unchanged, so
  \<open>A\<close> keeps the lock.
\<close>

theorem lock_conflict_during_lease:
  assumes "getSeat srv k = Some seat" and "status seat = locked"
    and "lockOwner seat = Some A" and "lockExpiresAt seat = Some e" and "now1 < e"
    and "B \<noteq> A" and "B \<noteq> []"
  shows "lock k B now1 now2 now3 srv = (Inl (LockConflict (Some A)), srv)"
  using assms by (simp add: lock_def)

theorem lock_conflict_during_lease_witness:
  "getSeat aliceLocked 5 =
     Some \<lparr>seat_id = 5, status = locked, lockOwner = Some ''alice'',
           lockExpiresAt = Some 61000, timeoutId = Some 1\<rparr> \<and>
   lock 5 ''bob'' 1000 1000 1000 aliceLocked =
     (Inl (LockConflict (Some ''alice'')), aliceLocked)"
  using lock_conflict_during_lease [OF aliceLocked_seat5, of "''alice''" 61000 1000 "''bob''" 1000 1000]
  by (simp add: aliceLocked_seat5)

text \<open>
  Claim C2. A seat is locked by \<open>A\<close> and its expiry has passed when \<open>A\<close> confirms. Then
  \<open>/confirm\<close> answers \<open>LockExpired\<close>, the seat is available again with owner, expiry
  and timeout handle cleared, the timeout the seat held has left the table of pending
  timeouts, and in a state where every pending timeout is held by its seat (\<open>timersOk\<close>,
  which holds in every run, \<open>timersOk_reachable\<close>) no timeout for the seat stays pending.
  The expiry is a real time stamp, that is not 0 (\<open>run_expiry_positive\<close>).
\<close>

theorem confirm_expired_releases:
  assumes "getSeat srv k = Some seat" and "status seat = locked"
    and "lockOwner seat = Some A" and "A \<noteq> []"
    and "lockExpiresAt seat = Some e" and "e \<noteq> 0" and "e \<le> now"
  shows "fst (confirm k A now srv) = Inl LockExpired \<and>
         getSeat (snd (confirm k A now srv)) k =
           Some (seat\<lparr>timeoutId := None, status := available, lockOwner := None,
                       lockExpiresAt := None\<rparr>) \<and>
         pending (snd (confirm k A now srv)) =
           (case timeoutId seat of None \<Rightarrow> pending srv | Some h \<Rightarrow> (pending srv)(h := None)) \<and>
         (timersOk srv \<longrightarrow> noPendingFor k (snd (confirm k A now srv)))"
  using assms
  by (simp add: confirm_def getSeat_releaseLock pending_releaseLock noPendingFor_releaseLock)

theorem confirm_expired_releases_witness:
  "getSeat aliceLocked 5 =
     Some \<lparr>seat_id = 5, status = locked, lockOwner = Some ''alice'',
           lockExpiresAt = Some 61000, timeoutId = Some 1\<rparr> \<and>
   timersOk aliceLocked \<and>
   fst (confirm 5 ''alice'' 61000 aliceLocked) = Inl LockExpired \<and>
   getSeat (snd (confirm 5 ''alice'' 61000 aliceLocked)) 5 =
     Some \<lparr>seat_id = 5, status = available, lockOwner = None, lockExpiresAt = None,
           timeoutId = None\<rparr> \<and>
   pending (snd (confirm 5 ''alice'' 61000 aliceLocked)) 1 = None \<and>
   noPendingFor 5 (snd (confirm 5 ''alice'' 61000 aliceLocked))"
  using confirm_expired_releases [OF aliceLocked_seat5, of "''alice''" 61000 61000]
  by (simp add: aliceLocked_seat5 aliceLocked_timersOk)

text \<open>
  Claim C3 (lazy expiry in \<open>/lock\<close>). A seat is locked, by anybody, and its expiry has
  passed. Then \<open>/lock\<close> by any user \<open>B\<close> succeeds: the seat is locked by \<open>B\<close> until the
  new reading plus the lock duration, the old timeout is cleared and a new one is
  pending. Nothing is assumed about timers or cleanup having run: \<open>srv\<close> is any state.
\<close>

theorem lock_takes_over_expired:
  assumes "getSeat srv k = Some seat" and "status seat = locked"
    and "lockExpiresAt seat = Some e" and "e \<noteq> 0" and "e \<le> now1" and "B \<noteq> []"
  shows "fst (lock k B now1 now2 now3 srv) =
           Inr (LockAcquired (seat_id seat) locked (Some (now2 + LOCK_DURATION_MS))) \<and>
         getSeat (snd (lock k B now1 now2 now3 srv)) k =
           Some (seat\<lparr>status := locked, lockOwner := Some B,
                       lockExpiresAt := Some (now2 + LOCK_DURATION_MS),
                       timeoutId := Some (nextTimeoutId srv)\<rparr>) \<and>
         pending (snd (lock k B now1 now2 now3 srv)) =
           ((case timeoutId seat of None \<Rightarrow> pending srv | Some h \<Rightarrow> (pending srv)(h := None))
              (nextTimeoutId srv \<mapsto>
                 \<lparr>callbackSeat = k, delay = max 0 (now2 + LOCK_DURATION_MS - now3) + 5\<rparr>))"
  using assms by (simp add: lock_def getSeat_releaseLock pending_releaseLock
      lockAvailable_fst lockAvailable_getSeat lockAvailable_pending nextTimeoutId_releaseLock
      split: option.splits)

theorem lock_takes_over_expired_witness:
  "getSeat aliceLocked 5 =
     Some \<lparr>seat_id = 5, status = locked, lockOwner = Some ''alice'',
           lockExpiresAt = Some 61000, timeoutId = Some 1\<rparr> \<and>
   pending aliceLocked 1 = Some \<lparr>callbackSeat = 5, delay = 60005\<rparr> \<and>
   fst (lock 5 ''bob'' 61000 61001 61002 aliceLocked) = Inr (LockAcquired 5 locked (Some 121001)) \<and>
   getSeat (snd (lock 5 ''bob'' 61000 61001 61002 aliceLocked)) 5 =
     Some \<lparr>seat_id = 5, status = locked, lockOwner = Some ''bob'',
           lockExpiresAt = Some 121001, timeoutId = Some 2\<rparr> \<and>
   pending (snd (lock 5 ''bob'' 61000 61001 61002 aliceLocked)) =
     [2 \<mapsto> \<lparr>callbackSeat = 5, delay = 60004\<rparr>]"
  using lock_takes_over_expired [OF aliceLocked_seat5, of 61000 61000 "''bob''" 61001 61002]
  by (simp add: aliceLocked_seat5 aliceLocked_pending aliceLocked_nextTimeoutId
      LOCK_DURATION_MS_def)

text \<open>
  Claim C4 (refresh by the owner). A seat is locked by \<open>A\<close> and not expired. Then
  \<open>/lock\<close> by \<open>A\<close> succeeds with the refreshed expiry, the seat stays locked by \<open>A\<close> with
  \<open>lockExpiresAt\<close> the new reading plus the lock duration, the old timeout is cleared and
  a new one is pending (the only one for the seat when \<open>timersOk\<close> holds), and the
  deadline does not move back when the old one was stamped at an earlier reading. The
  same holds for any list of repeated calls, each made before the deadline in force:
  all succeed, and the seat ends locked by \<open>A\<close> with the deadline of the last call.
\<close>

theorem claim_refresh_idempotent:
  assumes "getSeat srv k = Some seat" and "status seat = locked"
    and "lockOwner seat = Some A" and "A \<noteq> []"
    and "lockExpiresAt seat = Some e" and "now1 < e" and "withinLease e ts"
  shows "fst (lock k A now1 now2 now3 srv) =
           Inr (LockRefreshed (seat_id seat) locked (Some (now2 + LOCK_DURATION_MS))) \<and>
         getSeat (snd (lock k A now1 now2 now3 srv)) k =
           Some (seat\<lparr>lockExpiresAt := Some (now2 + LOCK_DURATION_MS),
                       timeoutId := Some (nextTimeoutId srv)\<rparr>) \<and>
         pending (snd (lock k A now1 now2 now3 srv)) =
           ((case timeoutId seat of None \<Rightarrow> pending srv | Some h \<Rightarrow> (pending srv)(h := None))
              (nextTimeoutId srv \<mapsto>
                 \<lparr>callbackSeat = k, delay = max 0 (now2 + LOCK_DURATION_MS - now3) + 5\<rparr>)) \<and>
         (timersOk srv \<longrightarrow>
            (\<forall>h t. pending (snd (lock k A now1 now2 now3 srv)) h = Some t \<and> callbackSeat t = k
                   \<longrightarrow> h = nextTimeoutId srv)) \<and>
         (e \<le> now2 + LOCK_DURATION_MS \<longrightarrow>
            (\<exists>s' e'. getSeat (snd (lock k A now1 now2 now3 srv)) k = Some s' \<and>
                     lockExpiresAt s' = Some e' \<and> e \<le> e')) \<and>
         fst (claimRepeatedly k A ts srv) =
           map (\<lambda>(now1, now2, now3).
                  Inr (LockRefreshed (seat_id seat) locked (Some (now2 + LOCK_DURATION_MS)))) ts \<and>
         (\<exists>s'. getSeat (snd (claimRepeatedly k A ts srv)) k = Some s' \<and>
               status s' = locked \<and> lockOwner s' = Some A \<and>
               lockExpiresAt s' = Some (finalExpiry e ts))"
proof -
  note r = lock_refresh [OF assms(1-6), of now2 now3]
  have g: "getSeat (snd (lock k A now1 now2 now3 srv)) k =
           Some (seat\<lparr>lockExpiresAt := Some (now2 + LOCK_DURATION_MS),
                       timeoutId := Some (nextTimeoutId srv)\<rparr>)"
    using r(2) [of k] by simp
  have one: "timersOk srv \<longrightarrow>
            (\<forall>h t. pending (snd (lock k A now1 now2 now3 srv)) h = Some t \<and> callbackSeat t = k
                   \<longrightarrow> h = nextTimeoutId srv)"
  proof (intro impI allI)
    fix h t
    assume ok: "timersOk srv"
      and "pending (snd (lock k A now1 now2 now3 srv)) h = Some t \<and> callbackSeat t = k"
    then have p: "((case timeoutId seat of None \<Rightarrow> pending srv
                     | Some h \<Rightarrow> (pending srv)(h := None))
              (nextTimeoutId srv \<mapsto>
                 \<lparr>callbackSeat = k, delay = max 0 (now2 + LOCK_DURATION_MS - now3) + 5\<rparr>)) h
              = Some t" and c: "callbackSeat t = k"
      by (simp_all only: r(3))
    show "h = nextTimeoutId srv"
      by (rule onlyPending_refresh [OF ok assms(1) p c])
  qed
  have fwd: "e \<le> now2 + LOCK_DURATION_MS \<longrightarrow>
            (\<exists>s' e'. getSeat (snd (lock k A now1 now2 now3 srv)) k = Some s' \<and>
                     lockExpiresAt s' = Some e' \<and> e \<le> e')"
    by (simp add: g)
  from claimRepeatedly_refresh [OF assms(1-5) assms(7)]
  have rep: "fst (claimRepeatedly k A ts srv) =
           map (\<lambda>(now1, now2, now3).
                  Inr (LockRefreshed (seat_id seat) locked (Some (now2 + LOCK_DURATION_MS)))) ts"
    and fin: "\<exists>s'. getSeat (snd (claimRepeatedly k A ts srv)) k = Some s' \<and>
               status s' = locked \<and> lockOwner s' = Some A \<and>
               lockExpiresAt s' = Some (finalExpiry e ts)"
    by blast+
  show ?thesis
    by (intro conjI) (rule r(1) g r(3) one fwd rep fin)+
qed

theorem claim_refresh_idempotent_witness:
  "getSeat aliceLocked 5 =
     Some \<lparr>seat_id = 5, status = locked, lockOwner = Some ''alice'',
           lockExpiresAt = Some 61000, timeoutId = Some 1\<rparr> \<and>
   withinLease 61000 [(2000, 2001, 2002), (62000, 62000, 62000), (121999, 122000, 122000)] \<and>
   timersOk aliceLocked \<and>
   fst (lock 5 ''alice'' 60999 61000 61001 aliceLocked) =
     Inr (LockRefreshed 5 locked (Some 121000)) \<and>
   getSeat (snd (lock 5 ''alice'' 60999 61000 61001 aliceLocked)) 5 =
     Some \<lparr>seat_id = 5, status = locked, lockOwner = Some ''alice'',
           lockExpiresAt = Some 121000, timeoutId = Some 2\<rparr> \<and>
   pending (snd (lock 5 ''alice'' 60999 61000 61001 aliceLocked)) =
     [2 \<mapsto> \<lparr>callbackSeat = 5, delay = 60004\<rparr>] \<and>
   fst (claimRepeatedly 5 ''alice''
          [(2000, 2001, 2002), (62000, 62000, 62000), (121999, 122000, 122000)] aliceLocked) =
     [Inr (LockRefreshed 5 locked (Some 62001)), Inr (LockRefreshed 5 locked (Some 122000)),
      Inr (LockRefreshed 5 locked (Some 182000))] \<and>
   (\<exists>s'. getSeat (snd (claimRepeatedly 5 ''alice''
          [(2000, 2001, 2002), (62000, 62000, 62000), (121999, 122000, 122000)] aliceLocked)) 5
            = Some s' \<and>
         status s' = locked \<and> lockOwner s' = Some ''alice'' \<and> lockExpiresAt s' = Some 182000)"
proof -
  let ?ts = "[(2000, 2001, 2002), (62000, 62000, 62000), (121999, 122000, 122000)]
               :: (millis \<times> millis \<times> millis) list"
  have w: "withinLease 61000 ?ts" by (simp add: LOCK_DURATION_MS_def)
  have f: "finalExpiry 61000 ?ts = 182000" by (simp add: LOCK_DURATION_MS_def)
  have t: "fst (lock 5 ''alice'' 60999 61000 61001 aliceLocked) =
     Inr (LockRefreshed 5 locked (Some (61000 + LOCK_DURATION_MS))) \<and>
   getSeat (snd (lock 5 ''alice'' 60999 61000 61001 aliceLocked)) 5 =
     Some \<lparr>seat_id = 5, status = locked, lockOwner = Some ''alice'',
           lockExpiresAt = Some (61000 + LOCK_DURATION_MS),
           timeoutId = Some (nextTimeoutId aliceLocked)\<rparr> \<and>
   pending (snd (lock 5 ''alice'' 60999 61000 61001 aliceLocked)) =
     ((pending aliceLocked)(1 := None))
       (nextTimeoutId aliceLocked \<mapsto>
          \<lparr>callbackSeat = 5, delay = max 0 (61000 + LOCK_DURATION_MS - 61001) + 5\<rparr>) \<and>
   fst (claimRepeatedly 5 ''alice'' ?ts aliceLocked) =
     map (\<lambda>(now1, now2, now3). Inr (LockRefreshed 5 locked (Some (now2 + LOCK_DURATION_MS)))) ?ts \<and>
   (\<exists>s'. getSeat (snd (claimRepeatedly 5 ''alice'' ?ts aliceLocked)) 5 = Some s' \<and>
         status s' = locked \<and> lockOwner s' = Some ''alice'' \<and>
         lockExpiresAt s' = Some (finalExpiry 61000 ?ts))"
    using claim_refresh_idempotent [OF aliceLocked_seat5 _ _ _ _ _ w,
        of "''alice''" 60999 61000 61001]
    by (simp del: claimRepeatedly.simps withinLease.simps finalExpiry.simps)
  show ?thesis
    using t w
    by (simp del: claimRepeatedly.simps withinLease.simps finalExpiry.simps
        add: f aliceLocked_seat5 aliceLocked_pending aliceLocked_nextTimeoutId
          aliceLocked_timersOk LOCK_DURATION_MS_def)
qed

text \<open>
  Claim C5 (booked is terminal). A booked seat is the same seat object after any run of
  requests, timer firings and cleanup ticks; the expiry callback and the cleanup leave
  the state as it is; \<open>/lock\<close> and \<open>/confirm\<close> answer \<open>AlreadyBooked\<close> and \<open>/release\<close>
  answers \<open>NotLocked\<close>, all three without changing the state.
\<close>

theorem booked_is_terminal:
  assumes "getSeat srv k = Some seat" and "status seat = booked"
  shows "getSeat (run evs srv) k = Some seat \<and>
         autoReleaseCallback k now srv = srv \<and>
         cleanupSeat now k srv = srv \<and>
         (u \<noteq> [] \<longrightarrow>
            lock k u now1 now2 now3 srv = (Inl AlreadyBooked, srv) \<and>
            confirm k u now srv = (Inl AlreadyBooked, srv) \<and>
            release k u srv = (Inl NotLocked, srv))"
  using assms
  by (simp add: run_booked autoReleaseCallback_def cleanupSeat_def lock_def confirm_def
      release_def)

theorem booked_is_terminal_witness:
  "getSeat aliceBooked 5 =
     Some \<lparr>seat_id = 5, status = booked, lockOwner = Some ''alice'',
           lockExpiresAt = None, timeoutId = None\<rparr> \<and>
   getSeat (run [LockReq 5 ''bob'' 70000 70000 70000, ConfirmReq 5 ''bob'' 70001,
                 ReleaseReq 5 ''alice'', TimerFires 1 70002, CleanupTick 70003,
                 LockReq 5 ''alice'' 70004 70004 70004] aliceBooked) 5 =
     Some \<lparr>seat_id = 5, status = booked, lockOwner = Some ''alice'',
           lockExpiresAt = None, timeoutId = None\<rparr> \<and>
   lock 5 ''bob'' 70000 70000 70000 aliceBooked = (Inl AlreadyBooked, aliceBooked) \<and>
   confirm 5 ''bob'' 70000 aliceBooked = (Inl AlreadyBooked, aliceBooked) \<and>
   release 5 ''alice'' aliceBooked = (Inl NotLocked, aliceBooked)"
  using booked_is_terminal [OF aliceBooked_seat5, of
      "[LockReq 5 ''bob'' 70000 70000 70000, ConfirmReq 5 ''bob'' 70001,
        ReleaseReq 5 ''alice'', TimerFires 1 70002, CleanupTick 70003,
        LockReq 5 ''alice'' 70004 70004 70004]" 70000 "''bob''" 70000 70000 70000]
    booked_is_terminal [OF aliceBooked_seat5, of "[]" 70000 "''alice''" 70000 70000 70000]
  by (simp add: aliceBooked_seat5)

text \<open>
  Claim C6 (shape of a seat). In every state reached from the initial one, each of the
  seats 1 to 20 exists, its status is one of the three, \<open>lockOwner\<close> is set exactly when
  the seat is locked or booked, and \<open>lockExpiresAt\<close> is set exactly when it is locked.
\<close>

theorem state_shape_invariant:
  "(1 \<le> k \<and> k \<le> 20 \<longrightarrow> (\<exists>s. getSeat (run evs initialServer) k = Some s)) \<and>
   (\<forall>s. getSeat (run evs initialServer) k = Some s \<longrightarrow> seatShapeOk s)"
proof (intro conjI impI allI)
  assume "1 \<le> k \<and> k \<le> 20"
  then have "getSeat initialServer k = Some (initialSeat k)"
    by (simp add: getSeat_initialServer)
  then show "\<exists>s. getSeat (run evs initialServer) k = Some s"
    by (rule run_seat_exists)
next
  fix s
  assume g: "getSeat (run evs initialServer) k = Some s"
  show "seatShapeOk s"
  proof (rule run_seat_invariant [where P = seatShapeOk and srv = initialServer
        and evs = evs and k = k])
    fix k' s'
    assume "getSeat initialServer k' = Some s'"
    then show "seatShapeOk s'"
      by (auto simp: getSeat_initialServer initialSeat_shape split: if_splits)
  next
    fix ev s0 s'
    assume "seatShapeOk s0" "seatMove ev s0 s'"
    then show "seatShapeOk s'" by (simp add: seatMove_shape)
  next
    show "getSeat (run evs initialServer) k = Some s" by (rule g)
  qed
qed

theorem state_shape_invariant_witness:
  "getSeat (run [LockReq 5 ''alice'' 1000 1000 1000, ConfirmReq 5 ''alice'' 2000]
              initialServer) 5 =
     Some \<lparr>seat_id = 5, status = booked, lockOwner = Some ''alice'',
           lockExpiresAt = None, timeoutId = None\<rparr> \<and>
   seatShapeOk \<lparr>seat_id = 5, status = booked, lockOwner = Some ''alice'',
                 lockExpiresAt = None, timeoutId = None\<rparr> \<and>
   getSeat (run [LockReq 5 ''alice'' 1000 1000 1000] initialServer) 5 =
     Some \<lparr>seat_id = 5, status = locked, lockOwner = Some ''alice'',
           lockExpiresAt = Some 61000, timeoutId = Some 1\<rparr> \<and>
   seatShapeOk \<lparr>seat_id = 5, status = locked, lockOwner = Some ''alice'',
                 lockExpiresAt = Some 61000, timeoutId = Some 1\<rparr>"
proof -
  have b: "getSeat (run [LockReq 5 ''alice'' 1000 1000 1000, ConfirmReq 5 ''alice'' 2000]
              initialServer) 5 =
     Some \<lparr>seat_id = 5, status = booked, lockOwner = Some ''alice'',
           lockExpiresAt = None, timeoutId = None\<rparr>"
    by (simp add: run_alice_books aliceBooked_seat5)
  have l: "getSeat (run [LockReq 5 ''alice'' 1000 1000 1000] initialServer) 5 =
     Some \<lparr>seat_id = 5, status = locked, lockOwner = Some ''alice'',
           lockExpiresAt = Some 61000, timeoutId = Some 1\<rparr>"
    using aliceLocked_seat5 by (simp add: run_def aliceLocked_def)
  from b l
    state_shape_invariant [of 5 "[LockReq 5 ''alice'' 1000 1000 1000, ConfirmReq 5 ''alice'' 2000]"]
    state_shape_invariant [of 5 "[LockReq 5 ''alice'' 1000 1000 1000]"]
  show ?thesis by simp
qed

text \<open>
  Claim C7 (expiry is a guarded no-op). For a seat that is locked with its expiry passed,
  the timeout callback, a firing timeout of that seat and the cleanup each make the
  seat available and clear owner and expiry. For a seat that is not locked, or locked
  with its expiry still ahead (a refreshed, confirmed or released seat), the callback
  and the cleanup step change nothing, a firing timeout only leaves the table of
  pending timeouts, and the cleanup leaves the seat as it is; when no seat is due the
  whole cleanup changes nothing. The callback and the cleanup return a state only:
  they have no response to fail with.
\<close>

theorem expire_guarded_noop:
  assumes "getSeat srv k = Some seat"
  shows "(status seat = locked \<and> (\<exists>e. lockExpiresAt seat = Some e \<and> e \<noteq> 0 \<and> e \<le> now) \<longrightarrow>
            getSeat (autoReleaseCallback k now srv) k =
              Some (seat\<lparr>timeoutId := None, status := available, lockOwner := None,
                          lockExpiresAt := None\<rparr>) \<and>
            getSeat (cleanup now srv) k =
              Some (seat\<lparr>timeoutId := None, status := available, lockOwner := None,
                          lockExpiresAt := None\<rparr>) \<and>
            (\<forall>h t. pending srv h = Some t \<and> callbackSeat t = k \<longrightarrow>
               getSeat (timerFires h now srv) k =
                 Some (seat\<lparr>timeoutId := None, status := available, lockOwner := None,
                             lockExpiresAt := None\<rparr>))) \<and>
         (\<not> (status seat = locked \<and> (\<exists>e. lockExpiresAt seat = Some e \<and> e \<le> now)) \<longrightarrow>
            autoReleaseCallback k now srv = srv \<and>
            cleanupSeat now k srv = srv \<and>
            getSeat (cleanup now srv) k = Some seat \<and>
            (\<forall>h t. pending srv h = Some t \<and> callbackSeat t = k \<longrightarrow>
               timerFires h now srv = clearTimeout h srv)) \<and>
         ((\<forall>k' s'. getSeat srv k' = Some s' \<longrightarrow>
             \<not> (status s' = locked \<and> (\<exists>e. lockExpiresAt s' = Some e \<and> e \<le> now))) \<longrightarrow>
            cleanup now srv = srv)"
proof (intro conjI impI)
  assume due: "status seat = locked \<and> (\<exists>e. lockExpiresAt seat = Some e \<and> e \<noteq> 0 \<and> e \<le> now)"
  with assms show "getSeat (autoReleaseCallback k now srv) k =
              Some (seat\<lparr>timeoutId := None, status := available, lockOwner := None,
                          lockExpiresAt := None\<rparr>)"
    by (auto simp: autoReleaseCallback_getSeat)
  from due assms show "getSeat (cleanup now srv) k =
              Some (seat\<lparr>timeoutId := None, status := available, lockOwner := None,
                          lockExpiresAt := None\<rparr>)"
    by (auto simp: cleanup_getSeat)
  show "\<forall>h t. pending srv h = Some t \<and> callbackSeat t = k \<longrightarrow>
               getSeat (timerFires h now srv) k =
                 Some (seat\<lparr>timeoutId := None, status := available, lockOwner := None,
                             lockExpiresAt := None\<rparr>)"
  proof (intro allI impI)
    fix h t
    assume p: "pending srv h = Some t \<and> callbackSeat t = k"
    have "getSeat (clearTimeout h srv) k = Some seat"
      using assms by (simp add: getSeat_clearTimeout)
    from autoReleaseCallback_getSeat [OF this, of now] due p
    show "getSeat (timerFires h now srv) k =
            Some (seat\<lparr>timeoutId := None, status := available, lockOwner := None,
                        lockExpiresAt := None\<rparr>)"
      by (auto simp: timerFires_def)
  qed
next
  assume nd: "\<not> (status seat = locked \<and> (\<exists>e. lockExpiresAt seat = Some e \<and> e \<le> now))"
  with assms show a: "autoReleaseCallback k now srv = srv"
    by (auto simp: autoReleaseCallback_def split: option.splits)
  from nd assms show "cleanupSeat now k srv = srv"
    by (auto simp: cleanupSeat_def split: option.splits)
  from nd assms show "getSeat (cleanup now srv) k = Some seat"
    by (auto simp: cleanup_getSeat split: option.splits)
  show "\<forall>h t. pending srv h = Some t \<and> callbackSeat t = k \<longrightarrow>
               timerFires h now srv = clearTimeout h srv"
  proof (intro allI impI)
    fix h t
    assume p: "pending srv h = Some t \<and> callbackSeat t = k"
    have "autoReleaseCallback k now (clearTimeout h srv) = clearTimeout h srv"
      using nd assms
      by (auto simp: autoReleaseCallback_def getSeat_clearTimeout split: option.splits)
    with p show "timerFires h now srv = clearTimeout h srv"
      by (simp add: timerFires_def)
  qed
next
  assume "\<forall>k' s'. getSeat srv k' = Some s' \<longrightarrow>
             \<not> (status s' = locked \<and> (\<exists>e. lockExpiresAt s' = Some e \<and> e \<le> now))"
  then have "\<And>k' s'. getSeat srv k' = Some s' \<Longrightarrow>
      \<not> (status s' = locked \<and>
         (case lockExpiresAt s' of None \<Rightarrow> False | Some e \<Rightarrow> e \<noteq> 0 \<and> e \<le> now))"
    by (auto split: option.splits)
  then show "cleanup now srv = srv" by (rule cleanup_id)
qed

theorem expire_guarded_noop_witness:
  "getSeat aliceLocked 5 =
     Some \<lparr>seat_id = 5, status = locked, lockOwner = Some ''alice'',
           lockExpiresAt = Some 61000, timeoutId = Some 1\<rparr> \<and>
   pending aliceLocked 1 = Some \<lparr>callbackSeat = 5, delay = 60005\<rparr> \<and>
   getSeat (autoReleaseCallback 5 61005 aliceLocked) 5 =
     Some \<lparr>seat_id = 5, status = available, lockOwner = None, lockExpiresAt = None,
           timeoutId = None\<rparr> \<and>
   getSeat (cleanup 61005 aliceLocked) 5 =
     Some \<lparr>seat_id = 5, status = available, lockOwner = None, lockExpiresAt = None,
           timeoutId = None\<rparr> \<and>
   getSeat (timerFires 1 61005 aliceLocked) 5 =
     Some \<lparr>seat_id = 5, status = available, lockOwner = None, lockExpiresAt = None,
           timeoutId = None\<rparr> \<and>
   autoReleaseCallback 5 60999 aliceLocked = aliceLocked \<and>
   cleanupSeat 60999 5 aliceLocked = aliceLocked \<and>
   timerFires 1 60999 aliceLocked = clearTimeout 1 aliceLocked \<and>
   cleanup 60999 aliceLocked = aliceLocked \<and>
   getSeat aliceBooked 5 =
     Some \<lparr>seat_id = 5, status = booked, lockOwner = Some ''alice'',
           lockExpiresAt = None, timeoutId = None\<rparr> \<and>
   autoReleaseCallback 5 61005 aliceBooked = aliceBooked"
proof -
  have nd: "\<forall>k' s'. getSeat aliceLocked k' = Some s' \<longrightarrow>
             \<not> (status s' = locked \<and> (\<exists>e. lockExpiresAt s' = Some e \<and> e \<le> 60999))"
    by (auto simp: aliceLocked_getSeat getSeat_initialServer initialSeat_def split: if_splits)
  from expire_guarded_noop [OF aliceLocked_seat5, of 61005]
    expire_guarded_noop [OF aliceLocked_seat5, of 60999]
    expire_guarded_noop [OF aliceBooked_seat5, of 61005] nd
  show ?thesis
    by (simp add: aliceLocked_seat5 aliceLocked_pending aliceBooked_seat5)
qed

text \<open>
  Claim C8 (release). \<open>/release\<close> by the owner of a locked seat succeeds, the seat is
  available with owner, expiry and timeout cleared, and any user who then calls
  \<open>/lock\<close> gets the seat. On a seat that is not locked it answers \<open>NotLocked\<close>; on a seat
  locked by somebody else it answers the 403 of line 169. Neither changes the state.
\<close>

theorem release_by_owner:
  assumes "getSeat srv k = Some seat" and "u \<noteq> []"
  shows "(status seat = locked \<and> lockOwner seat = Some u \<longrightarrow>
            fst (release k u srv) = Inr LockReleased \<and>
            getSeat (snd (release k u srv)) k =
              Some (seat\<lparr>timeoutId := None, status := available, lockOwner := None,
                          lockExpiresAt := None\<rparr>) \<and>
            pending (snd (release k u srv)) =
              (case timeoutId seat of None \<Rightarrow> pending srv
               | Some h \<Rightarrow> (pending srv)(h := None)) \<and>
            (timersOk srv \<longrightarrow> noPendingFor k (snd (release k u srv))) \<and>
            (\<forall>B now1 now2 now3. B \<noteq> [] \<longrightarrow>
               fst (lock k B now1 now2 now3 (snd (release k u srv))) =
                 Inr (LockAcquired (seat_id seat) locked (Some (now2 + LOCK_DURATION_MS))) \<and>
               getSeat (snd (lock k B now1 now2 now3 (snd (release k u srv)))) k =
                 Some (seat\<lparr>status := locked, lockOwner := Some B,
                             lockExpiresAt := Some (now2 + LOCK_DURATION_MS),
                             timeoutId := Some (nextTimeoutId srv)\<rparr>))) \<and>
         (status seat \<noteq> locked \<longrightarrow> release k u srv = (Inl NotLocked, srv)) \<and>
         (status seat = locked \<and> lockOwner seat \<noteq> Some u \<longrightarrow>
            release k u srv = (Inl ReleaseNotLockOwner, srv))"
proof (intro conjI impI allI)
  assume own: "status seat = locked \<and> lockOwner seat = Some u"
  with assms have rel: "release k u srv = (Inr LockReleased, releaseLock k srv)"
    by (simp add: release_def)
  let ?free = "seat\<lparr>timeoutId := None, status := available, lockOwner := None,
                     lockExpiresAt := None\<rparr>"
  have g: "getSeat (releaseLock k srv) k = Some ?free"
    using assms(1) by (simp add: getSeat_releaseLock)
  show "fst (release k u srv) = Inr LockReleased" by (simp add: rel)
  show "getSeat (snd (release k u srv)) k = Some ?free" by (simp add: rel g)
  show "pending (snd (release k u srv)) =
          (case timeoutId seat of None \<Rightarrow> pending srv | Some h \<Rightarrow> (pending srv)(h := None))"
    using assms(1) by (simp add: rel pending_releaseLock)
  show "noPendingFor k (snd (release k u srv))" if "timersOk srv"
    using that assms(1) by (simp add: rel noPendingFor_releaseLock)
  fix B :: userId and now1 now2 now3 :: millis
  assume B: "B \<noteq> []"
  have st: "status ?free = available" by simp
  show "fst (lock k B now1 now2 now3 (snd (release k u srv))) =
          Inr (LockAcquired (seat_id seat) locked (Some (now2 + LOCK_DURATION_MS)))"
    using lock_available(1) [OF g st B, of now1 now2 now3] by (simp add: rel)
  show "getSeat (snd (lock k B now1 now2 now3 (snd (release k u srv)))) k =
          Some (seat\<lparr>status := locked, lockOwner := Some B,
                      lockExpiresAt := Some (now2 + LOCK_DURATION_MS),
                      timeoutId := Some (nextTimeoutId srv)\<rparr>)"
    using lock_available(2) [OF g st B, of now1 now2 now3]
    by (simp add: rel nextTimeoutId_releaseLock)
next
  assume "status seat \<noteq> locked"
  with assms show "release k u srv = (Inl NotLocked, srv)" by (simp add: release_def)
next
  assume "status seat = locked \<and> lockOwner seat \<noteq> Some u"
  with assms show "release k u srv = (Inl ReleaseNotLockOwner, srv)" by (simp add: release_def)
qed

theorem release_by_owner_witness:
  "getSeat aliceLocked 5 =
     Some \<lparr>seat_id = 5, status = locked, lockOwner = Some ''alice'',
           lockExpiresAt = Some 61000, timeoutId = Some 1\<rparr> \<and>
   timersOk aliceLocked \<and>
   fst (release 5 ''alice'' aliceLocked) = Inr LockReleased \<and>
   getSeat (snd (release 5 ''alice'' aliceLocked)) 5 =
     Some \<lparr>seat_id = 5, status = available, lockOwner = None, lockExpiresAt = None,
           timeoutId = None\<rparr> \<and>
   pending (snd (release 5 ''alice'' aliceLocked)) 1 = None \<and>
   noPendingFor 5 (snd (release 5 ''alice'' aliceLocked)) \<and>
   fst (lock 5 ''bob'' 3000 3000 3000 (snd (release 5 ''alice'' aliceLocked))) =
     Inr (LockAcquired 5 locked (Some 63000)) \<and>
   getSeat (snd (lock 5 ''bob'' 3000 3000 3000 (snd (release 5 ''alice'' aliceLocked)))) 5 =
     Some \<lparr>seat_id = 5, status = locked, lockOwner = Some ''bob'',
           lockExpiresAt = Some 63000, timeoutId = Some 2\<rparr> \<and>
   release 5 ''bob'' aliceLocked = (Inl ReleaseNotLockOwner, aliceLocked) \<and>
   getSeat aliceLocked 6 = Some (initialSeat 6) \<and>
   release 6 ''alice'' aliceLocked = (Inl NotLocked, aliceLocked)"
proof -
  have g6: "getSeat aliceLocked 6 = Some (initialSeat 6)"
    by (simp add: aliceLocked_getSeat getSeat_initialServer)
  from release_by_owner [OF aliceLocked_seat5, of "''alice''"]
    release_by_owner [OF aliceLocked_seat5, of "''bob''"]
    release_by_owner [OF g6, of "''alice''"]
  show ?thesis
    by (simp add: aliceLocked_seat5 aliceLocked_pending aliceLocked_nextTimeoutId
        aliceLocked_timersOk g6 initialSeat_def LOCK_DURATION_MS_def)
qed

text \<open>
  Claim C9 (owner before expiry in \<open>/confirm\<close>). A seat is locked by \<open>A\<close> and the expiry
  has passed. \<open>/confirm\<close> by another user \<open>B\<close> answers \<open>NotLockOwner\<close> naming \<open>A\<close> and
  changes nothing: the seat stays locked with the stale owner and expiry.
\<close>

theorem confirm_checks_owner_before_expiry:
  assumes "getSeat srv k = Some seat" and "status seat = locked"
    and "lockOwner seat = Some A" and "lockExpiresAt seat = Some e" and "e \<le> now"
    and "B \<noteq> A" and "B \<noteq> []"
  shows "confirm k B now srv = (Inl (NotLockOwner (Some A)), srv) \<and>
         getSeat (snd (confirm k B now srv)) k = Some seat"
  using assms by (simp add: confirm_def)

theorem confirm_checks_owner_before_expiry_witness:
  "getSeat aliceLocked 5 =
     Some \<lparr>seat_id = 5, status = locked, lockOwner = Some ''alice'',
           lockExpiresAt = Some 61000, timeoutId = Some 1\<rparr> \<and>
   confirm 5 ''bob'' 70000 aliceLocked = (Inl (NotLockOwner (Some ''alice'')), aliceLocked) \<and>
   getSeat (snd (confirm 5 ''bob'' 70000 aliceLocked)) 5 =
     Some \<lparr>seat_id = 5, status = locked, lockOwner = Some ''alice'',
           lockExpiresAt = Some 61000, timeoutId = Some 1\<rparr>"
  using confirm_checks_owner_before_expiry [OF aliceLocked_seat5, of "''alice''" 61000 70000 "''bob''"]
  by (simp add: aliceLocked_seat5)

text \<open>
  Claim C10 (the boundary is inclusive, in all four tests). For a locked seat with a non
  zero expiry \<open>e\<close>: \<open>/lock\<close> by another user succeeds, \<open>/confirm\<close> by the owner answers
  \<open>LockExpired\<close>, the timeout callback frees the seat, and the cleanup frees the seat,
  each exactly when \<open>e \<le> now\<close>; so all four treat the lock as void at \<open>now = e\<close>.
\<close>

theorem expiry_boundary_inclusive:
  assumes "getSeat srv k = Some seat" and "status seat = locked"
    and "lockOwner seat = Some A" and "A \<noteq> []" and "B \<noteq> []" and "B \<noteq> A"
    and "lockExpiresAt seat = Some e" and "e \<noteq> 0"
  shows "((\<exists>r. fst (lock k B now now2 now3 srv) = Inr r) \<longleftrightarrow> e \<le> now) \<and>
         (fst (confirm k A now srv) = Inl LockExpired \<longleftrightarrow> e \<le> now) \<and>
         ((\<exists>s'. getSeat (autoReleaseCallback k now srv) k = Some s' \<and> status s' = available)
            \<longleftrightarrow> e \<le> now) \<and>
         ((\<exists>s'. getSeat (cleanup now srv) k = Some s' \<and> status s' = available)
            \<longleftrightarrow> e \<le> now)"
proof (intro conjI)
  show "(\<exists>r. fst (lock k B now now2 now3 srv) = Inr r) \<longleftrightarrow> e \<le> now"
  proof (cases "e \<le> now")
    case True
    then show ?thesis
      using assms lock_expired_fst [OF assms(1,2,7,8) True assms(5)] by simp
  next
    case False
    with assms show ?thesis by (simp add: lock_def)
  qed
  show "fst (confirm k A now srv) = Inl LockExpired \<longleftrightarrow> e \<le> now"
    using assms by (simp add: confirm_def Let_def)
  show "(\<exists>s'. getSeat (autoReleaseCallback k now srv) k = Some s' \<and> status s' = available)
          \<longleftrightarrow> e \<le> now"
    using assms by (auto simp: autoReleaseCallback_getSeat)
  show "(\<exists>s'. getSeat (cleanup now srv) k = Some s' \<and> status s' = available) \<longleftrightarrow> e \<le> now"
    using assms by (auto simp: cleanup_getSeat)
qed

theorem expiry_boundary_inclusive_witness:
  "getSeat aliceLocked 5 =
     Some \<lparr>seat_id = 5, status = locked, lockOwner = Some ''alice'',
           lockExpiresAt = Some 61000, timeoutId = Some 1\<rparr> \<and>
   (\<exists>r. fst (lock 5 ''bob'' 61000 61000 61000 aliceLocked) = Inr r) \<and>
   fst (confirm 5 ''alice'' 61000 aliceLocked) = Inl LockExpired \<and>
   (\<exists>s'. getSeat (autoReleaseCallback 5 61000 aliceLocked) 5 = Some s' \<and> status s' = available) \<and>
   (\<exists>s'. getSeat (cleanup 61000 aliceLocked) 5 = Some s' \<and> status s' = available) \<and>
   \<not> (\<exists>r. fst (lock 5 ''bob'' 60999 61000 61000 aliceLocked) = Inr r) \<and>
   fst (confirm 5 ''alice'' 60999 aliceLocked) \<noteq> Inl LockExpired \<and>
   \<not> (\<exists>s'. getSeat (autoReleaseCallback 5 60999 aliceLocked) 5 = Some s' \<and> status s' = available) \<and>
   \<not> (\<exists>s'. getSeat (cleanup 60999 aliceLocked) 5 = Some s' \<and> status s' = available)"
  using expiry_boundary_inclusive [OF aliceLocked_seat5, of "''alice''" "''bob''" 61000 61000 61000 61000]
    expiry_boundary_inclusive [OF aliceLocked_seat5, of "''alice''" "''bob''" 61000 60999 61000 61000]
  by (simp add: aliceLocked_seat5)

end
